theory Spec2Isabelle
  imports Main "HOL-Library.AList" "HOL-Library.Word" "HOL-Library.Char_ord"
    "HOL-Library.List_Lexorder"
begin

section \<open>Strings and paths\<close>

text \<open>
  The program is \<^verbatim>\<open>file_sorter.py\<close>: it lists the regular files under a source folder and
  copies each one into \<^verbatim>\<open>output_folder/<extension>/\<close>, at most \<^verbatim>\<open>max_concurrent\<close> copies
  at a time.

  A Python \<^verbatim>\<open>str\<close> is modelled as a \<^typ>\<open>string\<close> whose characters are the code points
  below 256. A \<^verbatim>\<open>pathlib.Path\<close> is modelled as the list of its components below a fixed
  root (the working directory), so that \<open>[]\<close> is the root itself; a component holds no
  \<^verbatim>\<open>/\<close>. The components \<^verbatim>\<open>..\<close> and symbolic links are not interpreted.
\<close>

type_synonym path = "string list"

text \<open>\<^verbatim>\<open>str.lower()\<close> on the code points below 256: A-Z and the Latin-1 capitals.\<close>

definition lower_char :: "char \<Rightarrow> char" where
  "lower_char c =
     (let n = (of_char c :: nat)
      in if (65 \<le> n \<and> n \<le> 90) \<or> (192 \<le> n \<and> n \<le> 222 \<and> n \<noteq> 215)
         then char_of (n + 32) else c)"

definition lower :: "string \<Rightarrow> string" where
  "lower s = map lower_char s"

text \<open>\<^verbatim>\<open>s.lstrip('.')\<close>\<close>

definition lstrip_dot :: "string \<Rightarrow> string" where
  "lstrip_dot s = dropWhile (\<lambda>c. c = CHR ''.'') s"

text \<open>\<^verbatim>\<open>s.rfind(c)\<close>: the highest index of \<open>c\<close> in \<open>s\<close>, or \<open>-1\<close>.\<close>

fun rfind :: "char \<Rightarrow> string \<Rightarrow> int" where
  "rfind c [] = -1"
| "rfind c (x # xs) =
     (let r = rfind c xs in if 0 \<le> r then r + 1 else if x = c then 0 else -1)"

text \<open>
  \<^verbatim>\<open>PurePath.suffix\<close> and \<^verbatim>\<open>PurePath.stem\<close> as pathlib defines them on the final component:
  \<^verbatim>\<open>
    i = name.rfind('.')
    if 0 < i < len(name) - 1: return name[i:]     # stem: name[:i]
    else: return ''                               # stem: name
  \<close>
\<close>

definition name_suffix :: "string \<Rightarrow> string" where
  "name_suffix nm =
     (let i = rfind CHR ''.'' nm
      in if 0 < i \<and> i < int (length nm) - 1 then drop (nat i) nm else [])"

definition name_stem :: "string \<Rightarrow> string" where
  "name_stem nm =
     (let i = rfind CHR ''.'' nm
      in if 0 < i \<and> i < int (length nm) - 1 then take (nat i) nm else nm)"

text \<open>\<^verbatim>\<open>PurePath.name\<close>: the final component, \<^verbatim>\<open>''\<close> for the root.\<close>

definition path_name :: "path \<Rightarrow> string" where
  "path_name p = (if p = [] then [] else last p)"

definition path_suffix :: "path \<Rightarrow> string" where
  "path_suffix p = name_suffix (path_name p)"

definition path_stem :: "path \<Rightarrow> string" where
  "path_stem p = name_stem (path_name p)"

text \<open>
  \<^verbatim>\<open>p / s\<close> for a string \<open>s\<close> without \<^verbatim>\<open>/\<close>: pathlib drops an empty component and the
  component \<^verbatim>\<open>.\<close>.
\<close>

definition joinpath :: "path \<Rightarrow> string \<Rightarrow> path" where
  "joinpath p s = (if s = [] \<or> s = ''.'' then p else p @ [s])"

text \<open>\<^verbatim>\<open>str(n)\<close> for a natural number, as the f-string \<^verbatim>\<open>{counter}\<close> renders it.\<close>

definition digit_char :: "nat \<Rightarrow> char" where
  "digit_char d = char_of (48 + d)"

fun str_nat :: "nat \<Rightarrow> string" where
  "str_nat n = (if n < 10 then [digit_char n] else str_nat (n div 10) @ [digit_char (n mod 10)])"

declare str_nat.simps [simp del]

section \<open>The extension key\<close>

text \<open>
  Lines 79-83 of \<^verbatim>\<open>copy_file\<close> (and line 157 of \<^verbatim>\<open>process_files\<close>):
  \<^verbatim>\<open>
    file_extension = source_file.suffix.lower().lstrip('.')
    if not file_extension:
        file_extension = 'no_extension'
  \<close>
  \<open>classify\<close> is this computation on a file name, \<open>file_extension\<close> the same on a path.
\<close>

definition classify :: "string \<Rightarrow> string" where
  "classify nm =
     (let file_extension = lstrip_dot (lower (name_suffix nm))
      in if file_extension = [] then ''no_extension'' else file_extension)"

definition file_extension :: "path \<Rightarrow> string" where
  "file_extension source_file = classify (path_name source_file)"

section \<open>The file system, the log and the errors\<close>

text \<open>
  The operating system is the environment of the program. It is modelled by a finite
  table from paths to nodes (a directory, or a regular file with its bytes), by the paths
  on which the system refuses \<^verbatim>\<open>open\<close> and \<^verbatim>\<open>mkdir\<close>, and by the files whose medium is
  damaged at some byte offset. The exceptions of the Python code are the values of
  \<open>error\<close>.

  The logging module is set up with two handlers (lines 18-25): the stream handler, whose
  output is the list \<open>log_records\<close>, and the file handler, which appends every record as
  one line to \<^verbatim>\<open>file_sorter.log\<close> in the working directory, the root of the table. The
  text of a line (the time of day, the level name and the message) is a parameter of the
  state: it is what the table \<open>formats\<close> gives for the record and the number of records
  logged before it, and nothing where the table has no line; the handler ends every line
  with a newline.
\<close>

type_synonym byte = "8 word"

datatype node = Dir | File "byte list"

datatype error =
    FileNotFoundError | FileExistsError | IsADirectoryError | NotADirectoryError
  | PermissionError | OSError | ValueError

datatype level = DEBUG | INFO | WARNING | ERROR

datatype message =
    SourceFolderMissing path
  | PathNotAFolder path
  | FileFound path
  | FilesFound nat path
  | FileCopied path path
  | CopyFailed path error
  | NoFilesFound
  | ProcessingFinished int int
  | FoldersCreated nat
  | Extensions "string list"
  | CriticalError error
  | Started
  | SourceFolderIs path
  | OutputFolderIs path
  | MaxConcurrentIs int
  | WorkFinished

record system =
  entries :: "(path \<times> node) list"
  denied :: "path list"
  faulty :: "(path \<times> nat) list"
  formats :: "((nat \<times> level \<times> message) \<times> byte list) list"
  threshold :: level
  log_records :: "(level \<times> message) list"

fun level_no :: "level \<Rightarrow> nat" where
  "level_no DEBUG = 10"
| "level_no INFO = 20"
| "level_no WARNING = 30"
| "level_no ERROR = 40"

definition lookup :: "system \<Rightarrow> path \<Rightarrow> node option" where
  "lookup s p = map_of (entries s) p"

text \<open>\<^verbatim>\<open>logging.FileHandler('file_sorter.log')\<close> (line 22).\<close>

definition log_file :: path where
  "log_file = [''file_sorter.log'']"

definition format_record :: "system \<Rightarrow> nat \<Rightarrow> level \<Rightarrow> message \<Rightarrow> byte list" where
  "format_record s k lvl msg =
     (case map_of (formats s) (k, lvl, msg) of Some line \<Rightarrow> line | None \<Rightarrow> []) @ [10]"

text \<open>
  \<^verbatim>\<open>FileHandler.emit\<close>: the line goes to the end of the log file through the stream that the
  handler opened when the module was loaded. When no regular file is at the path any
  more, no file of the table receives the line.
\<close>

definition emit :: "level \<Rightarrow> message \<Rightarrow> system \<Rightarrow> system" where
  "emit lvl msg s =
     (case lookup s log_file of
        Some (File c) \<Rightarrow>
          s\<lparr>entries :=
              AList.update log_file
                (File (c @ format_record s (length (log_records s)) lvl msg)) (entries s)\<rparr>
      | _ \<Rightarrow> s)"

text \<open>
  \<^verbatim>\<open>logger.debug/info/warning/error\<close>: a record below the logger's level is dropped, every
  other record goes to both handlers, the file handler first.
\<close>

definition logger :: "level \<Rightarrow> message \<Rightarrow> system \<Rightarrow> system" where
  "logger lvl msg s =
     (if level_no (threshold s) \<le> level_no lvl
      then (emit lvl msg s)\<lparr>log_records := log_records s @ [(lvl, msg)]\<rparr> else s)"

text \<open>\<^verbatim>\<open>os.path.exists\<close>, \<^verbatim>\<open>os.path.isdir\<close>, \<^verbatim>\<open>os.path.isfile\<close>. The root is a directory.\<close>

definition exists :: "system \<Rightarrow> path \<Rightarrow> bool" where
  "exists s p = (p = [] \<or> lookup s p \<noteq> None)"

definition isdir :: "system \<Rightarrow> path \<Rightarrow> bool" where
  "isdir s p = (p = [] \<or> lookup s p = Some Dir)"

definition isfile :: "system \<Rightarrow> path \<Rightarrow> bool" where
  "isfile s p = (p \<noteq> [] \<and> (case lookup s p of Some (File c) \<Rightarrow> True | _ \<Rightarrow> False))"

text \<open>\<^verbatim>\<open>os.mkdir\<close>: the parent must be a directory and the path must be new.\<close>

definition mkdir :: "system \<Rightarrow> path \<Rightarrow> (error + unit) \<times> system" where
  "mkdir s p =
     (if \<not> exists s (butlast p) then (Inl FileNotFoundError, s)
      else if \<not> isdir s (butlast p) then (Inl NotADirectoryError, s)
      else if exists s p then (Inl FileExistsError, s)
      else if p \<in> set (denied s) then (Inl PermissionError, s)
      else (Inr (), s\<lparr>entries := AList.update p Dir (entries s)\<rparr>))"

text \<open>
  \<^verbatim>\<open>os.makedirs(name, exist_ok=True)\<close>, as the standard library writes it:
  \<^verbatim>\<open>
    head, tail = path.split(name)
    if head and tail and not path.exists(head):
        try: makedirs(head, exist_ok=exist_ok)
        except FileExistsError: pass
    try: mkdir(name, mode)
    except OSError:
        if not exist_ok or not path.isdir(name): raise
  \<close>
  The directories made before a failure stay.
\<close>

function makedirs :: "system \<Rightarrow> path \<Rightarrow> (error + unit) \<times> system" where
  "makedirs s p =
     (case (if p \<noteq> [] \<and> butlast p \<noteq> [] \<and> \<not> exists s (butlast p)
            then (case makedirs s (butlast p) of
                    (Inl e, s1) \<Rightarrow> if e = FileExistsError then (Inr (), s1) else (Inl e, s1)
                  | (Inr u, s1) \<Rightarrow> (Inr (), s1))
            else (Inr (), s)) of
        (Inl e, s1) \<Rightarrow> (Inl e, s1)
      | (Inr u, s1) \<Rightarrow>
          (case mkdir s1 p of
             (Inl e, s2) \<Rightarrow> if isdir s1 p then (Inr (), s1) else (Inl e, s1)
           | (Inr v, s2) \<Rightarrow> (Inr (), s2)))"
  by pat_completeness auto
termination
  by (relation "measure (\<lambda>(s, p). length p)") auto

declare makedirs.simps [simp del]

text \<open>\<^verbatim>\<open>open(p, 'rb')\<close>: the check that the handle can be opened.\<close>

definition open_rb :: "system \<Rightarrow> path \<Rightarrow> error + unit" where
  "open_rb s p =
     (if \<not> exists s p then Inl FileNotFoundError
      else if isdir s p then Inl IsADirectoryError
      else if p \<in> set (denied s) then Inl PermissionError
      else Inr ())"

text \<open>\<^verbatim>\<open>open(p, 'wb')\<close>: creates the file, or truncates the one that is there.\<close>

definition open_wb :: "system \<Rightarrow> path \<Rightarrow> (error + unit) \<times> system" where
  "open_wb s p =
     (if isdir s p then (Inl IsADirectoryError, s)
      else if \<not> exists s (butlast p) then (Inl FileNotFoundError, s)
      else if \<not> isdir s (butlast p) then (Inl NotADirectoryError, s)
      else if p \<in> set (denied s) then (Inl PermissionError, s)
      else (Inr (), s\<lparr>entries := AList.update p (File []) (entries s)\<rparr>))"

text \<open>
  \<^verbatim>\<open>src.read(n)\<close> at offset \<open>pos\<close>: the next at most \<open>n\<close> bytes of the file as it is now, the
  empty chunk at the end of the file. The read fails when it reaches a damaged offset.
\<close>

definition read_chunk :: "system \<Rightarrow> path \<Rightarrow> nat \<Rightarrow> nat \<Rightarrow> error + byte list" where
  "read_chunk s p pos n =
     (case lookup s p of
        Some (File c) \<Rightarrow>
          (let chunk = take n (drop pos c)
           in case map_of (faulty s) p of
                Some k \<Rightarrow> if pos \<le> k \<and> k < pos + length chunk then Inl OSError else Inr chunk
              | None \<Rightarrow> Inr chunk)
      | _ \<Rightarrow> Inl OSError)"

text \<open>
  \<^verbatim>\<open>dst.write(chunk)\<close> through a handle that stands at offset \<open>pos\<close>: the chunk replaces the
  bytes of the file from \<open>pos\<close> on (a file shorter than \<open>pos\<close> is filled up with zeros
  first). The handle's own buffer is not modelled: a chunk is in the file once it is
  written.
\<close>

definition write_chunk :: "system \<Rightarrow> path \<Rightarrow> nat \<Rightarrow> byte list \<Rightarrow> system" where
  "write_chunk s p pos chunk =
     (case lookup s p of
        Some (File c) \<Rightarrow>
          s\<lparr>entries :=
              AList.update p
                (File (take pos (c @ replicate (pos - length c) 0) @ chunk @
                       drop (pos + length chunk) c))
                (entries s)\<rparr>
      | _ \<Rightarrow> s)"

section \<open>\<^verbatim>\<open>copy_file\<close>\<close>

text \<open>
  Lines 95-101, the search for an unused name:
  \<^verbatim>\<open>
    counter = 1
    original_target = target_file
    while await aiofiles.os.path.exists(target_file):
        stem = original_target.stem
        suffix = original_target.suffix
        target_file = target_subfolder / f"{stem}_{counter}{suffix}"
        counter += 1
  \<close>
  The loop runs for ever when every candidate exists, so its value is an \<open>option\<close>.
\<close>

partial_function (option) namer_loop ::
  "(path \<Rightarrow> bool) \<Rightarrow> path \<Rightarrow> path \<Rightarrow> path \<Rightarrow> nat \<Rightarrow> path option" where
  "namer_loop ex target_subfolder original_target target_file counter =
     (if ex target_file
      then namer_loop ex target_subfolder original_target
             (joinpath target_subfolder
                (path_stem original_target @ ''_'' @ str_nat counter @ path_suffix original_target))
             (counter + 1)
      else Some target_file)"

declare namer_loop.simps [code]

definition resolve_target :: "(path \<Rightarrow> bool) \<Rightarrow> path \<Rightarrow> string \<Rightarrow> path option" where
  "resolve_target ex target_subfolder desired_name =
     (let target_file = joinpath target_subfolder desired_name
      in namer_loop ex target_subfolder target_file target_file 1)"

text \<open>
  The candidate sequence of the search: the desired name first, then
  \<^verbatim>\<open>{stem}_{counter}{suffix}\<close> for the counters 1, 2, 3, ..., with the stem and the suffix of
  the first candidate as line 98 and line 99 take them.
\<close>

definition candidate :: "path \<Rightarrow> string \<Rightarrow> nat \<Rightarrow> path" where
  "candidate target_dir desired_name k =
     (let original_target = joinpath target_dir desired_name
      in if k = 0 then original_target
         else joinpath target_dir
                (path_stem original_target @ ''_'' @ str_nat k @ path_suffix original_target))"

text \<open>
  Lines 106-107, the streaming loop:
  \<^verbatim>\<open>
    while chunk := await src.read(8192):
        await dst.write(chunk)
  \<close>
  Each read sees the source as it is at that moment. Both handles start at offset 0 and
  move by the length of each chunk, so one offset \<open>pos\<close> serves for both.
\<close>

partial_function (option) copy_loop ::
  "system \<Rightarrow> path \<Rightarrow> nat \<Rightarrow> path \<Rightarrow> ((error + unit) \<times> system) option" where
  "copy_loop s src pos dst =
     (case read_chunk s src pos 8192 of
        Inl e \<Rightarrow> Some (Inl e, s)
      | Inr chunk \<Rightarrow>
          if chunk = [] then Some (Inr (), s)
          else copy_loop (write_chunk s dst pos chunk) src (pos + length chunk) dst)"

declare copy_loop.simps [code]

text \<open>
  The body of the \<^verbatim>\<open>try\<close> of \<^verbatim>\<open>copy_file\<close> (lines 78-110), run from its first line to its
  last with no other task of the event loop in between: \<open>Inl e\<close> is the exception raised.
\<close>

definition copy_file_body :: "system \<Rightarrow> path \<Rightarrow> path \<Rightarrow> ((error + unit) \<times> system) option" where
  "copy_file_body s source_file output_folder =
     (let target_subfolder = joinpath output_folder (file_extension source_file)
      in case makedirs s target_subfolder of
           (Inl e, s1) \<Rightarrow> Some (Inl e, s1)
         | (Inr u, s1) \<Rightarrow>
             (case resolve_target (exists s1) target_subfolder (path_name source_file) of
                None \<Rightarrow> None
              | Some target_file \<Rightarrow>
                  (case open_rb s1 source_file of
                     Inl e \<Rightarrow> Some (Inl e, s1)
                   | Inr v \<Rightarrow>
                       (case open_wb s1 target_file of
                          (Inl e, s2) \<Rightarrow> Some (Inl e, s2)
                        | (Inr w, s2) \<Rightarrow>
                            (case copy_loop s2 source_file 0 target_file of
                               None \<Rightarrow> None
                             | Some (Inl e, s3) \<Rightarrow> Some (Inl e, s3)
                             | Some (Inr x, s3) \<Rightarrow>
                                 Some (Inr (),
                                   logger INFO (FileCopied source_file target_file) s3))))))"

text \<open>
  \<^verbatim>\<open>copy_file\<close> with its \<^verbatim>\<open>except Exception\<close> (lines 112-114): an exception of the body is
  logged and becomes the result \<^verbatim>\<open>False\<close>.
\<close>

definition copy_file :: "system \<Rightarrow> path \<Rightarrow> path \<Rightarrow> (bool \<times> system) option" where
  "copy_file s source_file output_folder =
     (case copy_file_body s source_file output_folder of
        None \<Rightarrow> None
      | Some (Inl e, s1) \<Rightarrow> Some (False, logger ERROR (CopyFailed source_file e) s1)
      | Some (Inr u, s1) \<Rightarrow> Some (True, s1))"

section \<open>\<^verbatim>\<open>copy_file\<close> between its awaits\<close>

text \<open>
  \<^verbatim>\<open>copy_file\<close> is a coroutine: at each \<^verbatim>\<open>await\<close> (the \<^verbatim>\<open>makedirs\<close> of line 89, each \<^verbatim>\<open>exists\<close> of
  line 97, the two \<^verbatim>\<open>open\<close> of lines 104 and 105, each \<^verbatim>\<open>read\<close> and each \<^verbatim>\<open>write\<close> of lines 106
  and 107) the event loop may run another task. A \<open>phase\<close> is the place where the
  coroutine stands, with its local variables \<^verbatim>\<open>target_file\<close>, \<^verbatim>\<open>counter\<close>, the offset of the
  two handles and \<^verbatim>\<open>chunk\<close>; \<open>copy_step_body\<close> is the code from one \<^verbatim>\<open>await\<close> to the next. Closing
  the two handles changes nothing in the table and is not a step of its own.
\<close>

datatype phase =
    Start
  | Naming path nat
  | OpenSource path
  | OpenTarget path
  | Reading path nat
  | Writing path nat "byte list"

datatype outcome = Raised error | Returned | Next phase

definition copy_step_body :: "system \<Rightarrow> path \<Rightarrow> path \<Rightarrow> phase \<Rightarrow> outcome \<times> system" where
  "copy_step_body s source_file output_folder ph =
     (let target_subfolder = joinpath output_folder (file_extension source_file);
          original_target = joinpath target_subfolder (path_name source_file)
      in case ph of
           Start \<Rightarrow>
             (case makedirs s target_subfolder of
                (Inl e, s1) \<Rightarrow> (Raised e, s1)
              | (Inr u, s1) \<Rightarrow> (Next (Naming original_target 1), s1))
         | Naming target_file counter \<Rightarrow>
             if exists s target_file
             then (Next (Naming
                      (joinpath target_subfolder
                         (path_stem original_target @ ''_'' @ str_nat counter @
                          path_suffix original_target))
                      (counter + 1)), s)
             else (Next (OpenSource target_file), s)
         | OpenSource target_file \<Rightarrow>
             (case open_rb s source_file of
                Inl e \<Rightarrow> (Raised e, s)
              | Inr u \<Rightarrow> (Next (OpenTarget target_file), s))
         | OpenTarget target_file \<Rightarrow>
             (case open_wb s target_file of
                (Inl e, s1) \<Rightarrow> (Raised e, s1)
              | (Inr u, s1) \<Rightarrow> (Next (Reading target_file 0), s1))
         | Reading target_file pos \<Rightarrow>
             (case read_chunk s source_file pos 8192 of
                Inl e \<Rightarrow> (Raised e, s)
              | Inr chunk \<Rightarrow>
                  if chunk = []
                  then (Returned, logger INFO (FileCopied source_file target_file) s)
                  else (Next (Writing target_file pos chunk), s))
         | Writing target_file pos chunk \<Rightarrow>
             (Next (Reading target_file (pos + length chunk)),
              write_chunk s target_file pos chunk))"

text \<open>
  One step of the coroutine with the \<^verbatim>\<open>except Exception\<close> of lines 112-114: \<open>Inl b\<close> when
  \<^verbatim>\<open>copy_file\<close> returns \<open>b\<close>, \<open>Inr ph\<close> when it stands at the next \<^verbatim>\<open>await\<close>.
\<close>

definition copy_step :: "system \<Rightarrow> path \<Rightarrow> path \<Rightarrow> phase \<Rightarrow> (bool + phase) \<times> system" where
  "copy_step s source_file output_folder ph =
     (case copy_step_body s source_file output_folder ph of
        (Raised e, s1) \<Rightarrow> (Inl False, logger ERROR (CopyFailed source_file e) s1)
      | (Returned, s1) \<Rightarrow> (Inl True, s1)
      | (Next ph1, s1) \<Rightarrow> (Inr ph1, s1))"

text \<open>The coroutine run from a phase to its return with no other task in between.\<close>

partial_function (option) run_copy ::
  "system \<Rightarrow> path \<Rightarrow> path \<Rightarrow> phase \<Rightarrow> (bool \<times> system) option" where
  "run_copy s source_file output_folder ph =
     (case copy_step s source_file output_folder ph of
        (Inl b, s1) \<Rightarrow> Some (b, s1)
      | (Inr ph1, s1) \<Rightarrow> run_copy s1 source_file output_folder ph1)"

declare run_copy.simps [code]

section \<open>\<^verbatim>\<open>read_folder\<close>\<close>

text \<open>
  \<^verbatim>\<open>source_path.rglob('*')\<close> yields every entry below \<open>source_path\<close>, in the order of the
  table; \<^verbatim>\<open>read_folder\<close> keeps the regular files (lines 44-58).
\<close>

definition is_under :: "path \<Rightarrow> path \<Rightarrow> bool" where
  "is_under root p = (length root < length p \<and> take (length root) p = root)"

definition rglob :: "system \<Rightarrow> path \<Rightarrow> path list" where
  "rglob s source_path = filter (is_under source_path) (map fst (entries s))"

definition read_folder :: "system \<Rightarrow> path \<Rightarrow> path list \<times> system" where
  "read_folder s source_path =
     (if \<not> exists s source_path then ([], logger ERROR (SourceFolderMissing source_path) s)
      else if \<not> isdir s source_path then ([], logger ERROR (PathNotAFolder source_path) s)
      else
        (let files = filter (isfile s) (rglob s source_path);
             s1 = foldl (\<lambda>t item. logger DEBUG (FileFound item) t) s files
         in (files, logger INFO (FilesFound (length files) source_path) s1)))"

section \<open>The scheduler of \<^verbatim>\<open>process_files\<close>\<close>

text \<open>
  Lines 138-146:
  \<^verbatim>\<open>
    semaphore = asyncio.Semaphore(max_concurrent)
    async def copy_with_semaphore(file_path):
        async with semaphore:
            return await copy_file(file_path, output_folder)
    tasks = [copy_with_semaphore(file_path) for file_path in files]
    results = await asyncio.gather(*tasks, return_exceptions=True)
  \<close>
  One task per file. A task waits for the semaphore, holds one of its permits while
  \<^verbatim>\<open>copy_file\<close> runs, and gives the permit back when \<^verbatim>\<open>copy_file\<close> has returned. The event
  loop chooses which task moves next, so the scheduler is a step relation on
  configurations: \<open>acquire\<close> is \<^verbatim>\<open>semaphore.acquire()\<close>, enabled only while a permit is
  left; \<open>advance\<close> takes the copy of one task from one \<^verbatim>\<open>await\<close> to the next; \<open>finish\<close> is
  the last step of a copy together with the release of its permit.
\<close>

datatype task = Waiting path | Running path phase | Done bool

record config =
  sys :: system
  permits :: nat
  tasks :: "task list"

inductive sched_step :: "path \<Rightarrow> config \<Rightarrow> config \<Rightarrow> bool" for output_folder :: path where
  acquire:
    "i < length (tasks c) \<Longrightarrow> tasks c ! i = Waiting file_path \<Longrightarrow> 0 < permits c \<Longrightarrow>
     sched_step output_folder c
       (c\<lparr>permits := permits c - 1, tasks := (tasks c)[i := Running file_path Start]\<rparr>)"
| advance:
    "i < length (tasks c) \<Longrightarrow> tasks c ! i = Running file_path ph \<Longrightarrow>
     copy_step (sys c) file_path output_folder ph = (Inr ph1, s1) \<Longrightarrow>
     sched_step output_folder c
       (c\<lparr>sys := s1, tasks := (tasks c)[i := Running file_path ph1]\<rparr>)"
| finish:
    "i < length (tasks c) \<Longrightarrow> tasks c ! i = Running file_path ph \<Longrightarrow>
     copy_step (sys c) file_path output_folder ph = (Inl b, s1) \<Longrightarrow>
     sched_step output_folder c
       (c\<lparr>sys := s1, permits := permits c + 1, tasks := (tasks c)[i := Done b]\<rparr>)"

text \<open>The configuration in which \<^verbatim>\<open>gather\<close> starts: \<^verbatim>\<open>Semaphore(max_concurrent)\<close>, no task begun.\<close>

definition initial :: "system \<Rightarrow> int \<Rightarrow> path list \<Rightarrow> config" where
  "initial s max_concurrent files =
     \<lparr>sys = s, permits = nat max_concurrent, tasks = map Waiting files\<rparr>"

definition reachable :: "path \<Rightarrow> system \<Rightarrow> int \<Rightarrow> path list \<Rightarrow> config \<Rightarrow> bool" where
  "reachable output_folder s max_concurrent files c =
     (sched_step output_folder)\<^sup>*\<^sup>* (initial s max_concurrent files) c"

text \<open>The copies in flight: the tasks inside \<^verbatim>\<open>async with semaphore\<close>.\<close>

fun is_running :: "task \<Rightarrow> bool" where
  "is_running (Running f ph) = True"
| "is_running t = False"



definition in_flight :: "config \<Rightarrow> nat" where
  "in_flight c = length (filter is_running (tasks c))"


text \<open>
  \<^verbatim>\<open>await asyncio.gather(...)\<close> returns when every task is done, with the results in the
  order of the tasks.
\<close>

definition gather ::
  "path \<Rightarrow> system \<Rightarrow> int \<Rightarrow> path list \<Rightarrow> bool list \<Rightarrow> system \<Rightarrow> bool" where
  "gather output_folder s max_concurrent files results s' =
     (\<exists>c. reachable output_folder s max_concurrent files c \<and>
          tasks c = map Done results \<and> sys c = s')"



text \<open>The run in which the copies go one after the other, in the order of the list.\<close>

fun copy_in_order :: "system \<Rightarrow> path list \<Rightarrow> path \<Rightarrow> (bool list \<times> system) option" where
  "copy_in_order s [] output_folder = Some ([], s)"
| "copy_in_order s (f # fs) output_folder =
     (case copy_file s f output_folder of
        None \<Rightarrow> None
      | Some (b, s1) \<Rightarrow>
          (case copy_in_order s1 fs output_folder of
             None \<Rightarrow> None
           | Some (bs, s2) \<Rightarrow> Some (b # bs, s2)))"

section \<open>\<^verbatim>\<open>process_files\<close> and \<^verbatim>\<open>main\<close>\<close>

text \<open>Lines 149-150 and 155-158: the counts and the extensions of the summary.\<close>

definition successful :: "bool list \<Rightarrow> int" where
  "successful results = int (length (filter (\<lambda>r. r) results))"

definition failed :: "bool list \<Rightarrow> int" where
  "failed results = int (length results) - successful results"

definition extensions :: "path list \<Rightarrow> string list" where
  "extensions files = sort (remdups (map file_extension files))"

text \<open>
  \<^verbatim>\<open>process_files\<close> (lines 126-164), one rule for each way through it. \<^verbatim>\<open>Semaphore\<close> raises
  \<^verbatim>\<open>ValueError\<close> for a negative value; with the value 0 no task ever starts and \<^verbatim>\<open>gather\<close>
  does not return, so no rule applies.
\<close>

inductive process_files :: "system \<Rightarrow> path \<Rightarrow> path \<Rightarrow> int \<Rightarrow> system \<Rightarrow> bool" where
  output_folder_failed:
    "makedirs s output_folder = (Inl e, s1) \<Longrightarrow>
     process_files s source_folder output_folder max_concurrent
       (logger ERROR (CriticalError e) s1)"
| no_files:
    "makedirs s output_folder = (Inr (), s1) \<Longrightarrow>
     read_folder s1 source_folder = ([], s2) \<Longrightarrow>
     process_files s source_folder output_folder max_concurrent
       (logger WARNING NoFilesFound s2)"
| semaphore_failed:
    "makedirs s output_folder = (Inr (), s1) \<Longrightarrow>
     read_folder s1 source_folder = (files, s2) \<Longrightarrow> files \<noteq> [] \<Longrightarrow>
     max_concurrent < 0 \<Longrightarrow>
     process_files s source_folder output_folder max_concurrent
       (logger ERROR (CriticalError ValueError) s2)"
| processed:
    "makedirs s output_folder = (Inr (), s1) \<Longrightarrow>
     read_folder s1 source_folder = (files, s2) \<Longrightarrow> files \<noteq> [] \<Longrightarrow>
     0 \<le> max_concurrent \<Longrightarrow>
     gather output_folder s2 max_concurrent files results s3 \<Longrightarrow>
     process_files s source_folder output_folder max_concurrent
       (logger INFO (Extensions (extensions files))
         (logger INFO (FoldersCreated (length (extensions files)))
           (logger INFO (ProcessingFinished (successful results) (failed results)) s3)))"

record args =
  args_source_folder :: path
  args_output_folder :: path
  args_max_concurrent :: int
  args_verbose :: bool

text \<open>Lines 219-225 of \<^verbatim>\<open>main\<close>: the level of the logger and the four opening records.\<close>

definition main_start :: "system \<Rightarrow> args \<Rightarrow> system" where
  "main_start s a =
     logger INFO (MaxConcurrentIs (args_max_concurrent a))
       (logger INFO (OutputFolderIs (args_output_folder a))
         (logger INFO (SourceFolderIs (args_source_folder a))
           (logger INFO Started (if args_verbose a then s\<lparr>threshold := DEBUG\<rparr> else s))))"

text \<open>\<^verbatim>\<open>main\<close> (lines 213-243): the validation of the source folder, then \<^verbatim>\<open>process_files\<close>.\<close>

inductive main :: "system \<Rightarrow> args \<Rightarrow> system \<Rightarrow> bool" where
  source_missing:
    "\<not> exists (main_start s a) (args_source_folder a) \<Longrightarrow>
     main s a (logger ERROR (SourceFolderMissing (args_source_folder a)) (main_start s a))"
| source_not_a_folder:
    "exists (main_start s a) (args_source_folder a) \<Longrightarrow>
     \<not> isdir (main_start s a) (args_source_folder a) \<Longrightarrow>
     main s a (logger ERROR (PathNotAFolder (args_source_folder a)) (main_start s a))"
| source_valid:
    "exists (main_start s a) (args_source_folder a) \<Longrightarrow>
     isdir (main_start s a) (args_source_folder a) \<Longrightarrow>
     process_files (main_start s a) (args_source_folder a) (args_output_folder a) (args_max_concurrent a) s1 \<Longrightarrow>
     main s a (logger INFO WorkFinished s1)"

section \<open>Notions used in the statements and proofs\<close>


definition is_prefix :: "path \<Rightarrow> path \<Rightarrow> bool" where
  "is_prefix q p = (length q \<le> length p \<and> take (length q) p = q)"

text \<open>
  \<open>grown p s s1\<close>: the state \<open>s1\<close> is \<open>s\<close> with new directories at some of the paths that
  lead to \<open>p\<close>, and nothing else changed.
\<close>

definition grown :: "path \<Rightarrow> system \<Rightarrow> system \<Rightarrow> bool" where
  "grown p s s1 =
     ((\<forall>q. lookup s1 q = lookup s q \<or>
           (lookup s q = None \<and> lookup s1 q = Some Dir \<and> q \<noteq> [] \<and> is_prefix q p)) \<and>
      denied s1 = denied s \<and> faulty s1 = faulty s \<and> formats s1 = formats s \<and>
      threshold s1 = threshold s \<and> log_records s1 = log_records s)"

text \<open>
  \<open>kept s s'\<close>: every entry of the table of \<open>s\<close> is the same entry in \<open>s'\<close>, but that lines
  may have been appended to the log file.
\<close>

definition kept :: "system \<Rightarrow> system \<Rightarrow> bool" where
  "kept s s' =
     ((\<forall>q n. q \<noteq> log_file \<longrightarrow> lookup s q = Some n \<longrightarrow> lookup s' q = Some n) \<and>
      (lookup s log_file = Some Dir \<longrightarrow> lookup s' log_file = Some Dir) \<and>
      (\<forall>c. lookup s log_file = Some (File c) \<longrightarrow>
           (\<exists>d. lookup s' log_file = Some (File (c @ d)))))"

text \<open>The file that a copy has chosen as its target, once it has left the search.\<close>

fun target_of :: "phase \<Rightarrow> path option" where
  "target_of Start = None"
| "target_of (Naming t k) = None"
| "target_of (OpenSource t) = Some t"
| "target_of (OpenTarget t) = Some t"
| "target_of (Reading t pos) = Some t"
| "target_of (Writing t pos chunk) = Some t"

text \<open>
  \<open>targets_new s0 c\<close>: the target of every running copy of \<open>c\<close> is a path that the table of
  \<open>s0\<close> does not have.
\<close>

definition targets_new :: "system \<Rightarrow> config \<Rightarrow> bool" where
  "targets_new s0 c =
     (\<forall>i<length (tasks c). \<forall>f ph t.
        tasks c ! i = Running f ph \<longrightarrow> target_of ph = Some t \<longrightarrow> lookup s0 t = None)"

text \<open>
  The lines of a list of records, and the file table of \<open>s\<close> after the records have gone to
  the log file: the lines are at the end of the log file, when it is a regular file of the
  table, and nothing else is changed.
\<close>

definition logged_lines :: "system \<Rightarrow> (level \<times> message) list \<Rightarrow> byte list" where
  "logged_lines s rs =
     concat (map (\<lambda>(k, lvl, msg). format_record s k lvl msg)
               (zip [length (log_records s)..<length (log_records s) + length rs] rs))"

definition entries_logged :: "system \<Rightarrow> (level \<times> message) list \<Rightarrow> (path \<times> node) list" where
  "entries_logged s rs =
     (case lookup s log_file of
        Some (File c) \<Rightarrow> AList.update log_file (File (c @ logged_lines s rs)) (entries s)
      | _ \<Rightarrow> entries s)"

text \<open>The four opening records of \<^verbatim>\<open>main\<close> (lines 222-225).\<close>

definition opening_records :: "args \<Rightarrow> (level \<times> message) list" where
  "opening_records a =
     [(INFO, Started), (INFO, SourceFolderIs (args_source_folder a)),
      (INFO, OutputFolderIs (args_output_folder a)),
      (INFO, MaxConcurrentIs (args_max_concurrent a))]"

text \<open>
  A state for the examples: the working directory with an empty \<^verbatim>\<open>file_sorter.log\<close>, the
  source folder \<^verbatim>\<open>src\<close> with \<^verbatim>\<open>a.txt\<close>, \<^verbatim>\<open>b.TXT\<close> and \<^verbatim>\<open>.bashrc\<close>, and the output folder
  \<^verbatim>\<open>out\<close> whose \<^verbatim>\<open>txt\<close> already holds an \<^verbatim>\<open>a.txt\<close>. The table \<open>formats\<close> is empty, so
  every line of the log is a newline.
\<close>

definition example_fs :: system where
  "example_fs =
     \<lparr>entries =
        [([''file_sorter.log''], File []),
         ([''src''], Dir), ([''src'', ''a.txt''], File [97, 10]),
         ([''src'', ''b.TXT''], File [1, 2, 3]), ([''src'', ''.bashrc''], File [35]),
         ([''out''], Dir), ([''out'', ''txt''], Dir), ([''out'', ''txt'', ''a.txt''], File [7])],
      denied = [], faulty = [], formats = [], threshold = INFO, log_records = []\<rparr>"




text \<open>The example state after \<^verbatim>\<open>src/a.txt\<close> has been copied.\<close>

definition example_fs_copied :: system where
  "example_fs_copied =
     \<lparr>entries =
        [([''file_sorter.log''], File [10]),
         ([''src''], Dir), ([''src'', ''a.txt''], File [97, 10]),
         ([''src'', ''b.TXT''], File [1, 2, 3]), ([''src'', ''.bashrc''], File [35]),
         ([''out''], Dir), ([''out'', ''txt''], Dir), ([''out'', ''txt'', ''a.txt''], File [7]),
         ([''out'', ''txt'', ''a_1.txt''], File [97, 10])],
      denied = [], faulty = [], formats = [], threshold = INFO,
      log_records =
        [(INFO, FileCopied [''src'', ''a.txt''] [''out'', ''txt'', ''a_1.txt''])]\<rparr>"



text \<open>The example state after \<^verbatim>\<open>src/.bashrc\<close> has been copied.\<close>

definition example_fs_copied_dotfile :: system where
  "example_fs_copied_dotfile =
     \<lparr>entries =
        [([''file_sorter.log''], File [10]),
         ([''src''], Dir), ([''src'', ''a.txt''], File [97, 10]),
         ([''src'', ''b.TXT''], File [1, 2, 3]), ([''src'', ''.bashrc''], File [35]),
         ([''out''], Dir), ([''out'', ''txt''], Dir), ([''out'', ''txt'', ''a.txt''], File [7]),
         ([''out'', ''no_extension''], Dir),
         ([''out'', ''no_extension'', ''.bashrc''], File [35])],
      denied = [], faulty = [], formats = [], threshold = INFO,
      log_records =
        [(INFO, FileCopied [''src'', ''.bashrc''] [''out'', ''no_extension'', ''.bashrc''])]\<rparr>"

text \<open>The example state after the log file itself has been copied.\<close>

definition example_fs_copied_log :: system where
  "example_fs_copied_log =
     \<lparr>entries =
        [([''file_sorter.log''], File [10]),
         ([''src''], Dir), ([''src'', ''a.txt''], File [97, 10]),
         ([''src'', ''b.TXT''], File [1, 2, 3]), ([''src'', ''.bashrc''], File [35]),
         ([''out''], Dir), ([''out'', ''txt''], Dir), ([''out'', ''txt'', ''a.txt''], File [7]),
         ([''out'', ''log''], Dir),
         ([''out'', ''log'', ''file_sorter.log''], File [])],
      denied = [], faulty = [], formats = [], threshold = INFO,
      log_records =
        [(INFO, FileCopied [''file_sorter.log''] [''out'', ''log'', ''file_sorter.log''])]\<rparr>"







text \<open>Command-line arguments whose source folder does not exist in the example state.\<close>

definition example_args :: args where
  "example_args =
     \<lparr>args_source_folder = [''nosuch''], args_output_folder = [''sorted''],
      args_max_concurrent = 10, args_verbose = False\<rparr>"

section \<open>Properties of names and of the extension key\<close>

lemma rfind_lower_bound: "-1 \<le> rfind c s"
  by (induction s) (auto simp: Let_def)

lemma rfind_absent: "rfind c s = -1 \<longleftrightarrow> c \<notin> set s"
proof (induction s)
  case Nil
  then show ?case by simp
next
  case (Cons x xs)
  have "-1 \<le> rfind c xs" by (rule rfind_lower_bound)
  with Cons show ?case by (auto simp: Let_def)
qed

lemma rfind_upper_bound: "rfind c s < int (length s)"
  by (induction s) (auto simp: Let_def)

lemma rfind_found:
  "0 \<le> rfind c s \<Longrightarrow> \<exists>rest. drop (nat (rfind c s)) s = c # rest \<and> c \<notin> set rest"
proof (induction s)
  case Nil
  then show ?case by simp
next
  case (Cons x xs)
  show ?case
  proof (cases "0 \<le> rfind c xs")
    case True
    with Cons.IH obtain rest where "drop (nat (rfind c xs)) xs = c # rest" "c \<notin> set rest"
      by blast
    moreover from True have "nat (rfind c xs + 1) = Suc (nat (rfind c xs))" by simp
    ultimately show ?thesis using True by (simp add: Let_def)
  next
    case False
    then have neg: "rfind c xs = -1" using rfind_lower_bound [of c xs] by simp
    then have "c \<notin> set xs" by (simp add: rfind_absent)
    with Cons.prems False show ?thesis by (auto simp: Let_def split: if_splits)
  qed
qed

lemma name_suffix_shape:
  "name_suffix nm = [] \<or> (\<exists>rest. name_suffix nm = CHR ''.'' # rest \<and> CHR ''.'' \<notin> set rest)"
  using rfind_found [of "CHR ''.''" nm] by (auto simp: name_suffix_def Let_def)

lemma name_suffix_no_dot: "CHR ''.'' \<notin> set nm \<Longrightarrow> name_suffix nm = []"
  using rfind_absent [of "CHR ''.''" nm] by (simp add: name_suffix_def)

lemma stem_suffix: "name_stem nm @ name_suffix nm = nm"
  by (simp add: name_stem_def name_suffix_def Let_def)

lemma lower_char_dot: "lower_char c = CHR ''.'' \<longleftrightarrow> c = CHR ''.''"
proof -
  have a: "of_char (lower_char c) = (46::nat) \<longleftrightarrow> of_char c = (46::nat)"
    by (auto simp: lower_char_def Let_def)
  have b: "d = CHR ''.'' \<longleftrightarrow> of_char d = (46::nat)" for d
  proof -
    have "(d = CHR ''.'') = (of_char d = (of_char (CHR ''.'') :: nat))"
      by (simp only: of_char_eq_iff)
    then show ?thesis by simp
  qed
  show ?thesis using a b by blast
qed

lemma classify_no_dot: "CHR ''.'' \<notin> set (classify nm)"
proof -
  consider "name_suffix nm = []" | rest where "name_suffix nm = CHR ''.'' # rest" "CHR ''.'' \<notin> set rest"
    using name_suffix_shape by blast
  then show ?thesis
  proof cases
    case 1
    then show ?thesis by (simp add: classify_def lower_def lstrip_dot_def)
  next
    case 2
    have "CHR ''.'' \<notin> set (map lower_char rest)"
    proof
      assume "CHR ''.'' \<in> set (map lower_char rest)"
      then obtain x where "x \<in> set rest" "lower_char x = CHR ''.''" by auto
      then show False using 2(2) by (simp add: lower_char_dot)
    qed
    then have "CHR ''.'' \<notin> set (dropWhile (\<lambda>c. c = CHR ''.'') (map lower_char rest))"
      using set_dropWhileD by fastforce
    then show ?thesis using 2(1)
      by (simp add: classify_def lower_def lstrip_dot_def Let_def lower_char_dot)
  qed
qed

lemma classify_of_key: "classify (classify nm) = ''no_extension''"
  by (simp add: classify_def [of "classify nm"] name_suffix_no_dot classify_no_dot lower_def lstrip_dot_def)

lemma classify_dotfile: "CHR ''.'' \<notin> set rest \<Longrightarrow> classify (CHR ''.'' # rest) = ''no_extension''"
  using rfind_absent [of "CHR ''.''" rest]
  by (simp add: classify_def name_suffix_def lower_def lstrip_dot_def Let_def)

lemma lower_char_idem: "lower_char (lower_char c) = lower_char c"
  by (auto simp: lower_char_def Let_def)

lemma lower_idem: "lower (lower s) = lower s"
  by (simp add: lower_def lower_char_idem)

lemma lower_dropWhile:
  "lower (dropWhile (\<lambda>c. c = CHR ''.'') (lower s)) = dropWhile (\<lambda>c. c = CHR ''.'') (lower s)"
proof -
  have "map lower_char (dropWhile P (map lower_char s)) = dropWhile P (map lower_char s)" for P
    by (induction s) (simp_all add: lower_char_idem)
  then show ?thesis by (simp add: lower_def)
qed

lemma classify_lower: "lower (classify nm) = classify nm"
proof (cases "lstrip_dot (lower (name_suffix nm)) = []")
  case True
  then have "classify nm = ''no_extension''" by (simp add: classify_def)
  moreover have "lower ''no_extension'' = ''no_extension''" by code_simp
  ultimately show ?thesis by simp
next
  case False
  then have "classify nm = lstrip_dot (lower (name_suffix nm))"
    by (simp add: classify_def)
  then show ?thesis using lower_dropWhile [of "name_suffix nm"]
    by (simp only: lstrip_dot_def)
qed

lemma str_nat_nonempty: "str_nat n \<noteq> []"
  by (subst str_nat.simps) simp

lemma str_nat_nonempty': "[] \<noteq> str_nat n"
  using str_nat_nonempty [of n] by simp

lemma digit_char_inj: "a < 10 \<Longrightarrow> b < 10 \<Longrightarrow> digit_char a = digit_char b \<Longrightarrow> a = b"
proof -
  assume a: "a < 10" and b: "b < 10" and e: "digit_char a = digit_char b"
  have "of_char (digit_char a) = ((48 + a) mod 256 :: nat)"
    unfolding digit_char_def by (rule of_char_of)
  moreover have "of_char (digit_char b) = ((48 + b) mod 256 :: nat)"
    unfolding digit_char_def by (rule of_char_of)
  ultimately have "(48 + a) mod 256 = (48 + b) mod 256" using e by simp
  with a b show "a = b" by simp
qed

lemma str_nat_inj: "str_nat n = str_nat m \<Longrightarrow> n = m"
proof (induction n arbitrary: m rule: str_nat.induct)
  case (1 n)
  show ?case
  proof (cases "n < 10")
    case small: True
    show ?thesis
    proof (cases "m < 10")
      case True
      with small "1.prems" show ?thesis
        by (simp add: str_nat.simps [of n] str_nat.simps [of m] digit_char_inj)
    next
      case False
      with small "1.prems" show ?thesis
        by (simp add: str_nat.simps [of n] str_nat.simps [of m] str_nat_nonempty')
    qed
  next
    case big: False
    show ?thesis
    proof (cases "m < 10")
      case True
      with big "1.prems" [symmetric] show ?thesis
        by (simp add: str_nat.simps [of n] str_nat.simps [of m] str_nat_nonempty')
    next
      case False
      with big "1.prems" have e: "str_nat (n div 10) = str_nat (m div 10)"
        and d: "digit_char (n mod 10) = digit_char (m mod 10)"
        by (simp_all add: str_nat.simps [of n] str_nat.simps [of m])
      from "1.IH" [OF big e] have "n div 10 = m div 10" .
      moreover from d have "n mod 10 = m mod 10" by (simp add: digit_char_inj)
      ultimately show ?thesis by (metis div_mult_mod_eq)
    qed
  qed
qed

section \<open>The search for an unused name\<close>

lemma numbered_name_proper:
  "st @ ''_'' @ str_nat k @ sf \<noteq> [] \<and> st @ ''_'' @ str_nat k @ sf \<noteq> ''.''"
proof -
  define x where "x = st @ ''_'' @ str_nat k @ sf"
  have "1 \<le> length (str_nat k)"
    using str_nat_nonempty [of k] by (cases "str_nat k") simp_all
  then have l: "2 \<le> length x" by (simp add: x_def)
  have "x \<noteq> []" using l by auto
  moreover have "x \<noteq> ''.''"
  proof
    assume "x = ''.''"
    then have "length x = 1" by simp
    with l show False by simp
  qed
  ultimately show ?thesis unfolding x_def by blast
qed

lemma candidate_Suc:
  "candidate d nm (Suc k) =
     d @ [path_stem (joinpath d nm) @ ''_'' @ str_nat (Suc k) @ path_suffix (joinpath d nm)]"
  using numbered_name_proper [of "path_stem (joinpath d nm)" "Suc k" "path_suffix (joinpath d nm)"]
  by (simp add: candidate_def joinpath_def [of d "_ @ _"] Let_def)

lemma candidate_0: "candidate d nm 0 = joinpath d nm"
  by (simp add: candidate_def)

lemma path_name_joinpath: "nm \<noteq> [] \<Longrightarrow> nm \<noteq> ''.'' \<Longrightarrow> path_name (joinpath d nm) = nm"
  by (simp add: joinpath_def path_name_def)

lemma candidate_Suc_neq_0: "candidate d nm (Suc k) \<noteq> candidate d nm 0"
proof (cases "nm = [] \<or> nm = ''.''")
  case True
  then have "candidate d nm 0 = d" by (auto simp: candidate_0 joinpath_def)
  then show ?thesis by (simp add: candidate_Suc)
next
  case False
  then have n: "path_name (joinpath d nm) = nm" by (simp add: path_name_joinpath)
  have "length (name_stem nm @ ''_'' @ str_nat (Suc k) @ name_suffix nm) \<noteq> length nm"
    using arg_cong [OF stem_suffix [of nm], of length] by simp
  then have "name_stem nm @ ''_'' @ str_nat (Suc k) @ name_suffix nm \<noteq> nm" by metis
  with False n show ?thesis
    by (simp add: candidate_Suc candidate_0 joinpath_def path_stem_def path_suffix_def)
qed

lemma candidate_inj: "inj (candidate d nm)"
proof (rule injI)
  fix i j
  assume e: "candidate d nm i = candidate d nm j"
  show "i = j"
  proof (cases i)
    case 0
    then show ?thesis using e candidate_Suc_neq_0 [of d nm] by (cases j) auto
  next
    case (Suc i')
    show ?thesis
    proof (cases j)
      case 0
      then show ?thesis using e Suc candidate_Suc_neq_0 [of d nm i'] by simp
    next
      case (Suc j')
      with e \<open>i = Suc i'\<close> have "str_nat (Suc i') = str_nat (Suc j')"
        by (simp add: candidate_Suc)
      then have "Suc i' = Suc j'" by (rule str_nat_inj)
      then show ?thesis using Suc \<open>i = Suc i'\<close> by simp
    qed
  qed
qed

lemma namer_loop_from:
  assumes free: "\<not> ex (candidate d nm k)"
  shows "i \<le> k \<Longrightarrow>
     \<exists>j. i \<le> j \<and> j \<le> k \<and>
         namer_loop ex d (joinpath d nm) (candidate d nm i) (i + 1) = Some (candidate d nm j) \<and>
         \<not> ex (candidate d nm j) \<and> (\<forall>l. i \<le> l \<and> l < j \<longrightarrow> ex (candidate d nm l))"
proof (induction "k - i" arbitrary: i)
  case 0
  then have "i = k" by simp
  with free show ?case by (subst namer_loop.simps) auto
next
  case (Suc n)
  show ?case
  proof (cases "ex (candidate d nm i)")
    case False
    then have "namer_loop ex d (joinpath d nm) (candidate d nm i) (i + 1) = Some (candidate d nm i)"
      by (subst namer_loop.simps) simp
    with False Suc.prems show ?thesis by auto
  next
    case True
    from Suc.hyps(2) Suc.prems have "n = k - Suc i" "Suc i \<le> k" by simp_all
    from Suc.hyps(1) [OF this] obtain j where j: "Suc i \<le> j" "j \<le> k"
      "namer_loop ex d (joinpath d nm) (candidate d nm (Suc i)) (Suc i + 1) = Some (candidate d nm j)"
      "\<not> ex (candidate d nm j)" "\<forall>l. Suc i \<le> l \<and> l < j \<longrightarrow> ex (candidate d nm l)"
      by blast
    have step: "namer_loop ex d (joinpath d nm) (candidate d nm i) (i + 1) =
          namer_loop ex d (joinpath d nm) (candidate d nm (Suc i)) (Suc i + 1)"
      using True by (subst namer_loop.simps) (simp add: candidate_def Let_def)
    have "\<forall>l. i \<le> l \<and> l < j \<longrightarrow> ex (candidate d nm l)"
    proof (intro allI impI)
      fix l assume "i \<le> l \<and> l < j"
      then have "l = i \<or> (Suc i \<le> l \<and> l < j)" by arith
      with True j(5) show "ex (candidate d nm l)" by blast
    qed
    with j step show ?thesis by (intro exI [of _ j]) simp
  qed
qed

lemma resolve_target_first_free:
  assumes "\<not> ex (candidate d nm k)"
  shows "\<exists>j\<le>k. resolve_target ex d nm = Some (candidate d nm j) \<and>
           \<not> ex (candidate d nm j) \<and> (\<forall>i<j. ex (candidate d nm i))"
  using namer_loop_from [of ex d nm k 0] assms
  by (auto simp: resolve_target_def candidate_0 Let_def)

lemma exists_finite: "finite {p. exists s p}"
proof -
  have "{p. exists s p} \<subseteq> insert [] (fst ` set (entries s))"
    by (auto simp: exists_def lookup_def dest: map_of_SomeD intro: rev_image_eqI)
  then show ?thesis by (rule finite_subset) simp
qed

lemma free_candidate: "\<exists>k. \<not> exists s (candidate d nm k)"
proof -
  have "infinite (range (candidate d nm))"
    using finite_image_iff [OF candidate_inj, of d nm] by simp
  then have "\<not> range (candidate d nm) \<subseteq> {p. exists s p}"
    using exists_finite [of s] finite_subset by blast
  then show ?thesis by blast
qed

lemma resolve_target_exists:
  "\<exists>j. resolve_target (exists s) d nm = Some (candidate d nm j) \<and>
       \<not> exists s (candidate d nm j) \<and> (\<forall>i<j. exists s (candidate d nm i))"
proof -
  obtain k where "\<not> exists s (candidate d nm k)" using free_candidate by blast
  with resolve_target_first_free [of "exists s" d nm k] show ?thesis by blast
qed

text \<open>
  C3. Whenever some candidate is reported unused by the existence predicate, the search
  returns: its result is the first candidate of the sequence that the predicate reports
  as unused. The sequence starts with the desired name; for a file name (not empty, not
  \<^verbatim>\<open>.\<close>) the candidate with counter \<open>c \<ge> 1\<close> is \<^verbatim>\<open>{stem}_{c}{suffix}\<close> in the target directory;
  and no two candidates are equal.
\<close>

theorem resolve_target_terminates_unused:
  assumes "\<not> ex (candidate target_dir desired_name k)"
  shows "(\<exists>j\<le>k. resolve_target ex target_dir desired_name = Some (candidate target_dir desired_name j) \<and>
            \<not> ex (candidate target_dir desired_name j) \<and>
            (\<forall>i<j. ex (candidate target_dir desired_name i))) \<and>
         inj (candidate target_dir desired_name) \<and>
         candidate target_dir desired_name 0 = joinpath target_dir desired_name \<and>
         (desired_name \<noteq> [] \<and> desired_name \<noteq> ''.'' \<longrightarrow>
            (\<forall>c. candidate target_dir desired_name (Suc c) =
                  target_dir @ [name_stem desired_name @ ''_'' @ str_nat (Suc c) @
                                name_suffix desired_name]))"
proof (intro conjI)
  show "\<exists>j\<le>k. resolve_target ex target_dir desired_name = Some (candidate target_dir desired_name j) \<and>
          \<not> ex (candidate target_dir desired_name j) \<and>
          (\<forall>i<j. ex (candidate target_dir desired_name i))"
    using assms by (rule resolve_target_first_free)
  show "inj (candidate target_dir desired_name)"
    by (rule candidate_inj)
  show "candidate target_dir desired_name 0 = joinpath target_dir desired_name"
    by (rule candidate_0)
  show "desired_name \<noteq> [] \<and> desired_name \<noteq> ''.'' \<longrightarrow>
          (\<forall>c. candidate target_dir desired_name (Suc c) =
                target_dir @ [name_stem desired_name @ ''_'' @ str_nat (Suc c) @
                              name_suffix desired_name])"
    by (simp add: candidate_Suc path_name_joinpath path_stem_def path_suffix_def)
qed

text \<open>
  The theorem at a directory \<^verbatim>\<open>txt\<close> that holds \<^verbatim>\<open>a.txt\<close> only: the desired name \<^verbatim>\<open>a.txt\<close>
  resolves to \<^verbatim>\<open>txt/a_1.txt\<close>.
\<close>

theorem resolve_target_terminates_unused_witness:
  "\<not> (\<lambda>p. p = [''txt'', ''a.txt'']) (candidate [''txt''] ''a.txt'' (Suc 0)) \<and>
   resolve_target (\<lambda>p. p = [''txt'', ''a.txt'']) [''txt''] ''a.txt'' = Some [''txt'', ''a_1.txt'']"
proof -
  have c0: "candidate [''txt''] ''a.txt'' 0 = [''txt'', ''a.txt'']"
    by code_simp
  have c1: "candidate [''txt''] ''a.txt'' (Suc 0) = [''txt'', ''a_1.txt'']"
    by code_simp
  have free: "\<not> (\<lambda>p. p = [''txt'', ''a.txt'']) (candidate [''txt''] ''a.txt'' (Suc 0))"
    by (simp add: c1)
  from free
    resolve_target_terminates_unused
      [of "\<lambda>p. p = [''txt'', ''a.txt'']" "[''txt'']" "''a.txt''" "Suc 0"]
  obtain j where j: "j \<le> Suc 0"
      "resolve_target (\<lambda>p. p = [''txt'', ''a.txt'']) [''txt''] ''a.txt'' =
         Some (candidate [''txt''] ''a.txt'' j)"
      "candidate [''txt''] ''a.txt'' j \<noteq> [''txt'', ''a.txt'']"
    by blast
  from j(1) j(3) c0 have "j = Suc 0" by (cases j) auto
  with j(2) c1 free show ?thesis by simp
qed

text \<open>
  C6 (amended). \<open>classify\<close> is a function of the file name alone and has no failing branch.
  Applied to one of its own keys it returns \<^verbatim>\<open>no_extension\<close>, because a key holds no dot:
  applying it twice gives the same key as applying it once exactly for the names whose key
  is \<^verbatim>\<open>no_extension\<close>. The name \<^verbatim>\<open>archive.tar.gz\<close> has the key \<^verbatim>\<open>gz\<close> and \<^verbatim>\<open>README\<close> the key
  \<^verbatim>\<open>no_extension\<close>.
\<close>

theorem classify_twice:
  "classify (classify nm) = ''no_extension'' \<and>
   (classify (classify nm) = classify nm \<longleftrightarrow> classify nm = ''no_extension'') \<and>
   classify ''archive.tar.gz'' = ''gz'' \<and>
   classify ''README'' = ''no_extension''"
proof -
  have twice: "classify (classify nm) = ''no_extension''"
    by (rule classify_of_key)
  have gz: "classify ''archive.tar.gz'' = ''gz''"
    by code_simp
  have readme: "classify ''README'' = ''no_extension''"
    by code_simp
  from twice gz readme show ?thesis by auto
qed

text \<open>
  C6 as stated fails: the key of \<^verbatim>\<open>archive.tar.gz\<close> is \<^verbatim>\<open>gz\<close>, and the key of \<^verbatim>\<open>gz\<close> is
  \<^verbatim>\<open>no_extension\<close>.
\<close>

theorem classify_not_idempotent:
  "classify (classify ''archive.tar.gz'') \<noteq> classify ''archive.tar.gz''"
  by code_simp

section \<open>The file system operations and the log\<close>

lemma lookup_update:
  "lookup (s\<lparr>entries := AList.update p n (entries s)\<rparr>) q = (if q = p then Some n else lookup s q)"
  by (simp add: lookup_def update_conv')

lemma paths_update:
  "lookup s p \<noteq> None \<Longrightarrow> map fst (AList.update p n (entries s)) = map fst (entries s)"
  by (auto simp: lookup_def update_keys dest: map_of_SomeD intro: rev_image_eqI)

lemma lookup_emit:
  "lookup (emit lvl msg s) p =
     (if p = log_file
      then (case lookup s log_file of
              Some (File c) \<Rightarrow>
                Some (File (c @ format_record s (length (log_records s)) lvl msg))
            | x \<Rightarrow> x)
      else lookup s p)"
  by (auto simp: emit_def lookup_update split: option.splits node.splits)

lemma paths_emit: "map fst (entries (emit lvl msg s)) = map fst (entries s)"
  by (auto simp: emit_def paths_update split: option.splits node.splits)

lemma emit_rest:
  "denied (emit lvl msg s) = denied s \<and> faulty (emit lvl msg s) = faulty s \<and>
   formats (emit lvl msg s) = formats s \<and> threshold (emit lvl msg s) = threshold s \<and>
   log_records (emit lvl msg s) = log_records s"
  by (simp add: emit_def split: option.splits node.splits)

lemma lookup_log [simp]: "lookup (s\<lparr>log_records := x\<rparr>) p = lookup s p"
  by (simp add: lookup_def)

lemma lookup_logger:
  "lookup (logger lvl msg s) p =
     (if p = log_file \<and> level_no (threshold s) \<le> level_no lvl
      then (case lookup s log_file of
              Some (File c) \<Rightarrow>
                Some (File (c @ format_record s (length (log_records s)) lvl msg))
            | x \<Rightarrow> x)
      else lookup s p)"
  by (auto simp: logger_def lookup_emit split: option.splits node.splits)

lemma lookup_logger_other: "p \<noteq> log_file \<Longrightarrow> lookup (logger lvl msg s) p = lookup s p"
  by (simp add: lookup_logger)

lemma lookup_logger_None [simp]: "lookup (logger lvl msg s) p = None \<longleftrightarrow> lookup s p = None"
  by (auto simp: lookup_logger split: option.splits node.splits)

lemma lookup_logger_Dir [simp]: "lookup (logger lvl msg s) p = Some Dir \<longleftrightarrow> lookup s p = Some Dir"
  by (auto simp: lookup_logger split: option.splits node.splits)

lemma lookup_logger_File:
  "lookup s p = Some (File c) \<Longrightarrow> \<exists>d. lookup (logger lvl msg s) p = Some (File (c @ d))"
  by (auto simp: lookup_logger)

lemma paths_logger [simp]: "map fst (entries (logger lvl msg s)) = map fst (entries s)"
  by (simp add: logger_def paths_emit)

lemma exists_logger [simp]: "exists (logger lvl msg s) p = exists s p"
  by (simp add: exists_def)

lemma isdir_logger [simp]: "isdir (logger lvl msg s) p = isdir s p"
  by (simp add: isdir_def)

lemma logger_rest [simp]:
  "denied (logger lvl msg s) = denied s" "faulty (logger lvl msg s) = faulty s"
  "formats (logger lvl msg s) = formats s" "threshold (logger lvl msg s) = threshold s"
  by (simp_all add: logger_def emit_rest)

lemma log_records_logger:
  "log_records (logger lvl msg s) =
     log_records s @ (if level_no (threshold s) \<le> level_no lvl then [(lvl, msg)] else [])"
  by (simp add: logger_def emit_rest)

lemma lookup_write_chunk:
  "lookup (write_chunk s p pos chunk) q =
     (if q = p
      then (case lookup s p of
              Some (File c) \<Rightarrow>
                Some (File (take pos (c @ replicate (pos - length c) 0) @ chunk @
                            drop (pos + length chunk) c))
            | x \<Rightarrow> x)
      else lookup s q)"
  by (auto simp: write_chunk_def lookup_update split: option.splits node.splits)

lemma paths_write_chunk: "map fst (entries (write_chunk s p pos chunk)) = map fst (entries s)"
  by (auto simp: write_chunk_def paths_update split: option.splits node.splits)

lemma mkdir_lookup:
  "mkdir s p = (r, s1) \<Longrightarrow>
   lookup s1 q = lookup s q \<or> (q = p \<and> lookup s q = None \<and> lookup s1 q = Some Dir \<and> p \<noteq> [])"
  by (auto simp: mkdir_def lookup_update exists_def split: if_splits)

lemma mkdir_rest:
  "mkdir s p = (r, s1) \<Longrightarrow>
   denied s1 = denied s \<and> faulty s1 = faulty s \<and> formats s1 = formats s \<and>
   threshold s1 = threshold s \<and> log_records s1 = log_records s"
  by (auto simp: mkdir_def split: if_splits)

lemma is_prefix_refl: "is_prefix p p"
  by (simp add: is_prefix_def)

lemma is_prefix_butlast: "is_prefix q (butlast p) \<Longrightarrow> is_prefix q p"
proof -
  assume a: "is_prefix q (butlast p)"
  then have l: "length q \<le> length p - 1" by (simp add: is_prefix_def)
  have "take (length q) p = take (length q) (butlast p)"
  proof (cases "length q < length p")
    case True
    then show ?thesis by (simp add: take_butlast)
  next
    case False
    with l have "p = []" by (cases p) auto
    then show ?thesis by simp
  qed
  moreover from l have "length q \<le> length p" by simp
  ultimately show ?thesis using a by (simp add: is_prefix_def)
qed

lemma grown_refl: "grown p s s"
  by (simp add: grown_def)

lemma grown_mkdir:
  assumes "mkdir s p = (r, s1)"
  shows "grown p s s1"
proof -
  have "lookup s1 q = lookup s q \<or>
        (lookup s q = None \<and> lookup s1 q = Some Dir \<and> q \<noteq> [] \<and> is_prefix q p)" for q
    using mkdir_lookup [OF assms, of q] by (auto simp: is_prefix_refl)
  then show ?thesis using mkdir_rest [OF assms] by (simp add: grown_def)
qed

lemma grown_trans:
  assumes a: "grown (butlast p) s s1" and b: "grown p s1 s2"
  shows "grown p s s2"
proof -
  have "lookup s2 q = lookup s q \<or>
        (lookup s q = None \<and> lookup s2 q = Some Dir \<and> q \<noteq> [] \<and> is_prefix q p)" for q
  proof -
    from a have 1: "lookup s1 q = lookup s q \<or>
        (lookup s q = None \<and> lookup s1 q = Some Dir \<and> q \<noteq> [] \<and> is_prefix q (butlast p))"
      by (simp add: grown_def)
    from b have 2: "lookup s2 q = lookup s1 q \<or>
        (lookup s1 q = None \<and> lookup s2 q = Some Dir \<and> q \<noteq> [] \<and> is_prefix q p)"
      by (simp add: grown_def)
    from 1 2 show ?thesis using is_prefix_butlast [of q p] by auto
  qed
  moreover from a b have "denied s2 = denied s \<and> faulty s2 = faulty s \<and>
      formats s2 = formats s \<and> threshold s2 = threshold s \<and> log_records s2 = log_records s"
    by (simp add: grown_def)
  ultimately show ?thesis by (simp add: grown_def)
qed

lemma grown_butlast: "grown (butlast p) s s1 \<Longrightarrow> grown p s s1"
  using grown_trans [OF _ grown_refl] by blast

lemma makedirs_grown: "makedirs s p = (r, s1) \<Longrightarrow> grown p s s1"
proof (induction s p arbitrary: r s1 rule: makedirs.induct)
  case (1 s p)
  show ?case
  proof (cases "p \<noteq> [] \<and> butlast p \<noteq> [] \<and> \<not> exists s (butlast p)")
    case rec: True
    obtain r0 s0 where m0: "makedirs s (butlast p) = (r0, s0)" by fastforce
    from "1.IH" [OF rec m0] have g0: "grown (butlast p) s s0" .
    show ?thesis
    proof (cases "\<exists>e. r0 = Inl e \<and> e \<noteq> FileExistsError")
      case True
      with rec m0 "1.prems" have "s1 = s0"
        by (subst (asm) makedirs.simps) (auto split: sum.splits)
      with g0 show ?thesis by (simp add: grown_butlast)
    next
      case False
      obtain r2 s2 where mk: "mkdir s0 p = (r2, s2)" by fastforce
      from False rec m0 mk "1.prems" have "s1 = s0 \<or> s1 = s2"
        by (subst (asm) makedirs.simps) (auto split: sum.splits if_splits)
      with g0 grown_mkdir [OF mk] show ?thesis
        using grown_trans grown_butlast by blast
    qed
  next
    case norec: False
    obtain r2 s2 where mk: "mkdir s p = (r2, s2)" by fastforce
    from norec mk "1.prems" have "s1 = s \<or> s1 = s2"
      by (subst (asm) makedirs.simps) (auto split: sum.splits if_splits)
    with grown_mkdir [OF mk] show ?thesis using grown_refl by blast
  qed
qed

lemma open_wb_result:
  "open_wb s p = (r, s2) \<Longrightarrow>
     (case r of
        Inl e \<Rightarrow> s2 = s
      | Inr u \<Rightarrow> (\<forall>q. lookup s2 q = (if q = p then Some (File []) else lookup s q)) \<and>
                 faulty s2 = faulty s)"
  by (auto simp: open_wb_def lookup_update split: if_splits)

lemma open_rb_file:
  "open_rb s p = Inr u \<Longrightarrow> \<exists>c. lookup s p = Some (File c)"
proof -
  assume "open_rb s p = Inr u"
  then have "exists s p" "\<not> isdir s p" by (auto simp: open_rb_def split: if_splits)
  then obtain n where "lookup s p = Some n" "n \<noteq> Dir" by (auto simp: exists_def isdir_def)
  then show ?thesis by (cases n) auto
qed

lemma take_chunk:
  "take pos c @ take n (drop pos c) = take (pos + length (take n (drop pos c))) c"
proof -
  have "take (length (take n (drop pos c))) (drop pos c) = take n (drop pos c)"
    by (simp add: min_def)
  then show ?thesis by (simp add: take_add)
qed

lemma copy_loop_runs:
  assumes "src \<noteq> dst"
  shows "lookup s src = Some (File c) \<Longrightarrow> lookup s dst = Some (File (take pos c)) \<Longrightarrow>
     \<exists>r s'. copy_loop s src pos dst = Some (r, s') \<and>
            (\<forall>q. q \<noteq> dst \<longrightarrow> lookup s' q = lookup s q) \<and>
            map fst (entries s') = map fst (entries s) \<and>
            (\<exists>d'. lookup s' dst = Some (File d')) \<and>
            (r = Inr () \<longrightarrow> lookup s' dst = Some (File c))"
proof (induction "length c - pos" arbitrary: s pos rule: less_induct)
  case less
  let ?chunk = "take 8192 (drop pos c)"
  show ?case
  proof (cases "read_chunk s src pos 8192")
    case (Inl e)
    then have "copy_loop s src pos dst = Some (Inl e, s)"
      by (subst copy_loop.simps) simp
    with less.prems show ?thesis by simp
  next
    case (Inr chunk)
    with less.prems(1) have chunk: "chunk = ?chunk"
      by (auto simp: read_chunk_def Let_def split: option.splits if_splits)
    show ?thesis
    proof (cases "chunk = []")
      case True
      with Inr have "copy_loop s src pos dst = Some (Inr (), s)"
        by (subst copy_loop.simps) simp
      moreover from True chunk have "drop pos c = []" by (cases "drop pos c") auto
      then have "take pos c = c" by simp
      ultimately show ?thesis using less.prems by simp
    next
      case False
      let ?s = "write_chunk s dst pos chunk"
      from False chunk have p: "pos < length c" by (cases "pos < length c") auto
      with False chunk have m: "length c - (pos + length chunk) < length c - pos"
        by (cases chunk) auto
      have ls: "lookup ?s src = Some (File c)"
        using assms less.prems(1) by (simp add: lookup_write_chunk)
      have "take pos (take pos c @ replicate (pos - length (take pos c)) 0) @ chunk @
              drop (pos + length chunk) (take pos c) = take (pos + length chunk) c"
        using p chunk take_chunk [of pos c 8192] by simp
      then have ld: "lookup ?s dst = Some (File (take (pos + length chunk) c))"
        using less.prems(2) by (simp add: lookup_write_chunk)
      from less.hyps [OF m ls ld] obtain r s' where
        r: "copy_loop ?s src (pos + length chunk) dst = Some (r, s')"
           "\<forall>q. q \<noteq> dst \<longrightarrow> lookup s' q = lookup ?s q"
           "map fst (entries s') = map fst (entries ?s)"
           "\<exists>d'. lookup s' dst = Some (File d')"
           "r = Inr () \<longrightarrow> lookup s' dst = Some (File c)"
        by blast
      have step: "copy_loop s src pos dst = copy_loop ?s src (pos + length chunk) dst"
        using Inr False by (subst copy_loop.simps) simp
      from r step show ?thesis by (simp add: lookup_write_chunk paths_write_chunk)
    qed
  qed
qed

section \<open>One uninterrupted copy\<close>

lemma kept_refl: "kept s s"
  by (auto simp: kept_def)

lemma kept_same: "(\<And>q n. lookup s q = Some n \<Longrightarrow> lookup s' q = Some n) \<Longrightarrow> kept s s'"
  by (auto simp: kept_def)

lemma kept_trans: "kept s s1 \<Longrightarrow> kept s1 s2 \<Longrightarrow> kept s s2"
  unfolding kept_def
  by (intro conjI allI impI) (blast, blast, metis append.assoc)

lemma kept_by_logger: "kept s (logger lvl msg s)"
  unfolding kept_def
  by (auto simp: lookup_logger_other dest: lookup_logger_File)

lemma kept_logger: "kept s s' \<Longrightarrow> kept s (logger lvl msg s')"
  using kept_trans kept_by_logger by blast

lemma kept_exists: "kept s s' \<Longrightarrow> lookup s q \<noteq> None \<Longrightarrow> lookup s' q \<noteq> None"
proof -
  assume k: "kept s s'" and e: "lookup s q \<noteq> None"
  then obtain n where n: "lookup s q = Some n" by auto
  show ?thesis
  proof (cases "q = log_file")
    case False
    with k n show ?thesis by (auto simp: kept_def)
  next
    case True
    with k n show ?thesis by (cases n) (auto simp: kept_def)
  qed
qed

lemma grown_keeps: "grown p s s1 \<Longrightarrow> lookup s q = Some n \<Longrightarrow> lookup s1 q = Some n"
  unfolding grown_def by (metis option.distinct(1))

lemma grown_file: "grown p s s1 \<Longrightarrow> lookup s1 q = Some (File c) \<Longrightarrow> lookup s q = Some (File c)"
  unfolding grown_def by (metis node.distinct(1) option.inject)


lemma grown_kept: "grown p s s1 \<Longrightarrow> kept s s1"
  by (rule kept_same) (rule grown_keeps)

lemma not_exists_lookup: "\<not> exists s p \<Longrightarrow> lookup s p = None \<and> p \<noteq> []"
  by (simp add: exists_def)

lemma classify_proper: "classify nm \<noteq> [] \<and> classify nm \<noteq> ''.''"
proof -
  have "classify nm \<noteq> []" by (simp add: classify_def Let_def)
  moreover have "classify nm \<noteq> ''.''"
    using classify_no_dot [of nm] by (metis list.set_intros(1))
  ultimately show ?thesis by simp
qed

lemma target_subfolder_eq:
  "joinpath target_root (file_extension source_file) = target_root @ [file_extension source_file]"
  using classify_proper [of "path_name source_file"]
  by (simp add: joinpath_def file_extension_def)

lemma butlast_candidate:
  "nm \<noteq> [] \<Longrightarrow> nm \<noteq> ''.'' \<Longrightarrow> butlast (candidate d nm j) = d"
  by (cases j) (simp_all add: candidate_0 candidate_Suc joinpath_def)

lemma last_candidate_0:
  "nm \<noteq> [] \<Longrightarrow> nm \<noteq> ''.'' \<Longrightarrow> candidate d nm 0 = d @ [nm]"
  by (simp add: candidate_0 joinpath_def)

lemma key_not_log_name: "classify nm \<noteq> ''file_sorter.log''"
proof
  assume "classify nm = ''file_sorter.log''"
  then have "CHR ''.'' \<in> set (classify nm)" by simp
  then show False by (simp add: classify_no_dot)
qed

lemma target_not_log_file:
  "candidate (joinpath target_root (file_extension source_file)) nm j \<noteq> log_file"
proof (cases j)
  case 0
  show ?thesis
  proof (cases "nm = [] \<or> nm = ''.''")
    case True
    then have "candidate (joinpath target_root (file_extension source_file)) nm 0 =
        target_root @ [file_extension source_file]"
      by (auto simp: candidate_0 target_subfolder_eq joinpath_def [of _ nm])
    then show ?thesis using 0 key_not_log_name [of "path_name source_file"]
      by (auto simp: log_file_def file_extension_def append_eq_Cons_conv)
  next
    case False
    then have "candidate (joinpath target_root (file_extension source_file)) nm 0 =
        target_root @ [file_extension source_file, nm]"
      by (simp add: last_candidate_0 target_subfolder_eq)
    then show ?thesis using 0 by (auto simp: log_file_def append_eq_Cons_conv)
  qed
next
  case (Suc k)
  then show ?thesis
    by (auto simp: candidate_Suc target_subfolder_eq log_file_def append_eq_Cons_conv)
qed

lemma copy_file_body_runs:
  fixes s :: system and source_file target_root :: path
  defines "sub \<equiv> joinpath target_root (file_extension source_file)"
  defines "nm \<equiv> path_name source_file"
  shows "\<exists>r1 s1 r s'.
     makedirs s sub = (r1, s1) \<and>
     copy_file_body s source_file target_root = Some (r, s') \<and>
     kept s s' \<and>
     (r = Inr () \<longrightarrow>
        r1 = Inr () \<and>
        (\<exists>c j. lookup s source_file = Some (File c) \<and>
               resolve_target (exists s1) sub nm = Some (candidate sub nm j) \<and>
               \<not> exists s1 (candidate sub nm j) \<and>
               (\<forall>i<j. exists s1 (candidate sub nm i)) \<and>
               lookup s' (candidate sub nm j) = Some (File c) \<and>
               (\<forall>q. q \<noteq> candidate sub nm j \<longrightarrow> q \<noteq> log_file \<longrightarrow>
                    lookup s' q = lookup s1 q)))"
proof -
  obtain r1 s1 where mk: "makedirs s sub = (r1, s1)" by fastforce
  then have g: "grown sub s s1" by (rule makedirs_grown)
  then have k1: "kept s s1" by (rule grown_kept)
  show ?thesis
  proof (cases r1)
    case (Inl e)
    with mk have "copy_file_body s source_file target_root = Some (Inl e, s1)"
      by (simp add: copy_file_body_def sub_def Let_def)
    with mk k1 show ?thesis by auto
  next
    case (Inr u)
    obtain j where j: "resolve_target (exists s1) sub nm = Some (candidate sub nm j)"
        "\<not> exists s1 (candidate sub nm j)" "\<forall>i<j. exists s1 (candidate sub nm i)"
      using resolve_target_exists [of s1 sub nm] by blast
    let ?t = "candidate sub nm j"
    from j(2) have t_new: "lookup s1 ?t = None" by (simp add: not_exists_lookup)
    have t_log: "?t \<noteq> log_file" unfolding sub_def by (rule target_not_log_file)
    show ?thesis
    proof (cases "open_rb s1 source_file")
      case (Inl e)
      with mk Inr j(1) have "copy_file_body s source_file target_root = Some (Inl e, s1)"
        by (simp add: copy_file_body_def sub_def nm_def Let_def)
      with mk k1 show ?thesis by auto
    next
      case opened: (Inr v)
      then obtain c where c1: "lookup s1 source_file = Some (File c)"
        using open_rb_file by blast
      with g have c: "lookup s source_file = Some (File c)" by (rule grown_file)
      from c1 t_new have neq: "source_file \<noteq> ?t" by auto
      obtain r2 s2 where w: "open_wb s1 ?t = (r2, s2)" by fastforce
      show ?thesis
      proof (cases r2)
        case (Inl e)
        with w open_wb_result [OF w] have "open_wb s1 ?t = (Inl e, s1)" by simp
        with mk Inr j(1) opened
        have "copy_file_body s source_file target_root = Some (Inl e, s1)"
          by (simp add: copy_file_body_def sub_def nm_def Let_def)
        with mk k1 show ?thesis by auto
      next
        case created: (Inr x)
        with open_wb_result [OF w]
        have l2: "\<forall>q. lookup s2 q = (if q = ?t then Some (File []) else lookup s1 q)"
          by simp
        from l2 neq c1 have src2: "lookup s2 source_file = Some (File c)" by simp
        from l2 have dst2: "lookup s2 ?t = Some (File (take 0 c))" by simp
        from copy_loop_runs [OF neq src2 dst2] obtain r3 s3 where
          r3: "copy_loop s2 source_file 0 ?t = Some (r3, s3)"
              "\<forall>q. q \<noteq> ?t \<longrightarrow> lookup s3 q = lookup s2 q"
              "r3 = Inr () \<longrightarrow> lookup s3 ?t = Some (File c)"
          by auto
        have rest3: "lookup s3 q = lookup s1 q" if "q \<noteq> ?t" for q
          using that r3(2) l2 by simp
        have "lookup s3 q = Some n" if "lookup s1 q = Some n" for q n
        proof -
          from that t_new have "q \<noteq> ?t" by auto
          with rest3 that show ?thesis by simp
        qed
        then have "kept s1 s3" by (rule kept_same)
        with k1 have k3: "kept s s3" by (rule kept_trans)
        show ?thesis
        proof (cases r3)
          case (Inl e)
          with mk Inr j(1) opened w created r3(1)
          have "copy_file_body s source_file target_root = Some (Inl e, s3)"
            by (simp add: copy_file_body_def sub_def nm_def Let_def)
          with mk k3 show ?thesis by auto
        next
          case finished: (Inr y)
          let ?s' = "logger INFO (FileCopied source_file ?t) s3"
          from finished mk Inr j(1) opened w created r3(1)
          have b: "copy_file_body s source_file target_root = Some (Inr (), ?s')"
            by (simp add: copy_file_body_def sub_def nm_def Let_def)
          from finished r3(3) t_log have d: "lookup ?s' ?t = Some (File c)"
            by (simp add: lookup_logger_other)
          have o: "\<forall>q. q \<noteq> ?t \<longrightarrow> q \<noteq> log_file \<longrightarrow> lookup ?s' q = lookup s1 q"
            using rest3 by (simp add: lookup_logger_other)
          from k3 have k: "kept s ?s'" by (rule kept_logger)
          from mk Inr b k c j d o show ?thesis
            by (intro exI [of _ r1] exI [of _ s1] exI [of _ "Inr ()"] exI [of _ ?s']) auto
        qed
      qed
    qed
  qed
qed

lemma copy_file_runs:
  fixes s :: system and source_file target_root :: path
  defines "sub \<equiv> joinpath target_root (file_extension source_file)"
  defines "nm \<equiv> path_name source_file"
  shows "\<exists>b s'.
     copy_file s source_file target_root = Some (b, s') \<and>
     kept s s' \<and>
     (b \<longrightarrow>
        (\<exists>c j s1. makedirs s sub = (Inr (), s1) \<and>
               lookup s source_file = Some (File c) \<and>
               resolve_target (exists s1) sub nm = Some (candidate sub nm j) \<and>
               \<not> exists s1 (candidate sub nm j) \<and>
               (\<forall>i<j. exists s1 (candidate sub nm i)) \<and>
               lookup s' (candidate sub nm j) = Some (File c) \<and>
               (\<forall>q. q \<noteq> candidate sub nm j \<longrightarrow> q \<noteq> log_file \<longrightarrow>
                    lookup s' q = lookup s1 q)))"
proof -
  from copy_file_body_runs [of s target_root source_file]
  obtain r1 s1 r s2 where
    mk: "makedirs s sub = (r1, s1)" and
    body: "copy_file_body s source_file target_root = Some (r, s2)" and
    frame: "kept s s2" and
    ok: "r = Inr () \<longrightarrow>
        r1 = Inr () \<and>
        (\<exists>c j. lookup s source_file = Some (File c) \<and>
               resolve_target (exists s1) sub nm = Some (candidate sub nm j) \<and>
               \<not> exists s1 (candidate sub nm j) \<and>
               (\<forall>i<j. exists s1 (candidate sub nm i)) \<and>
               lookup s2 (candidate sub nm j) = Some (File c) \<and>
               (\<forall>q. q \<noteq> candidate sub nm j \<longrightarrow> q \<noteq> log_file \<longrightarrow>
                    lookup s2 q = lookup s1 q))"
    unfolding sub_def nm_def by blast
  show ?thesis
  proof (cases r)
    case (Inl e)
    with body have "copy_file s source_file target_root =
        Some (False, logger ERROR (CopyFailed source_file e) s2)"
      by (simp add: copy_file_def)
    with frame show ?thesis
      by (intro exI [of _ False] exI [of _ "logger ERROR (CopyFailed source_file e) s2"])
        (simp add: kept_logger)
  next
    case (Inr u)
    with body have "copy_file s source_file target_root = Some (True, s2)"
      by (simp add: copy_file_def)
    with frame ok mk Inr show ?thesis by auto
  qed
qed

lemma copy_file_total: "\<exists>b s'. copy_file s source_file target_root = Some (b, s')"
  using copy_file_runs [of s source_file target_root] by blast



section \<open>The steps of a copy\<close>

lemma copy_step_Start:
  "copy_step s f out Start =
     (case makedirs s (joinpath out (file_extension f)) of
        (Inl e, s1) \<Rightarrow> (Inl False, logger ERROR (CopyFailed f e) s1)
      | (Inr u, s1) \<Rightarrow>
          (Inr (Naming (candidate (joinpath out (file_extension f)) (path_name f) 0) 1), s1))"
  by (simp add: copy_step_def copy_step_body_def Let_def candidate_0
      split: prod.splits sum.splits)

lemma copy_step_Naming:
  "copy_step s f out (Naming t k) =
     (if exists s t
      then (Inr (Naming
              (joinpath (joinpath out (file_extension f))
                 (path_stem (joinpath (joinpath out (file_extension f)) (path_name f)) @ ''_'' @
                  str_nat k @
                  path_suffix (joinpath (joinpath out (file_extension f)) (path_name f))))
              (k + 1)), s)
      else (Inr (OpenSource t), s))"
  by (simp add: copy_step_def copy_step_body_def Let_def)

lemma copy_step_Naming_candidate:
  "copy_step s f out (Naming t (Suc i)) =
     (if exists s t
      then (Inr (Naming (candidate (joinpath out (file_extension f)) (path_name f) (Suc i))
              (Suc i + 1)), s)
      else (Inr (OpenSource t), s))"
  by (simp add: copy_step_Naming candidate_def Let_def)

lemma copy_step_OpenSource:
  "copy_step s f out (OpenSource t) =
     (case open_rb s f of
        Inl e \<Rightarrow> (Inl False, logger ERROR (CopyFailed f e) s)
      | Inr u \<Rightarrow> (Inr (OpenTarget t), s))"
  by (simp add: copy_step_def copy_step_body_def Let_def split: sum.splits)

lemma copy_step_OpenTarget:
  "copy_step s f out (OpenTarget t) =
     (case open_wb s t of
        (Inl e, s1) \<Rightarrow> (Inl False, logger ERROR (CopyFailed f e) s1)
      | (Inr u, s1) \<Rightarrow> (Inr (Reading t 0), s1))"
  by (simp add: copy_step_def copy_step_body_def Let_def split: prod.splits sum.splits)

lemma copy_step_Reading:
  "copy_step s f out (Reading t pos) =
     (case read_chunk s f pos 8192 of
        Inl e \<Rightarrow> (Inl False, logger ERROR (CopyFailed f e) s)
      | Inr chunk \<Rightarrow>
          if chunk = [] then (Inl True, logger INFO (FileCopied f t) s)
          else (Inr (Writing t pos chunk), s))"
  by (simp add: copy_step_def copy_step_body_def Let_def split: sum.splits)

lemma copy_step_Writing:
  "copy_step s f out (Writing t pos chunk) =
     (Inr (Reading t (pos + length chunk)), write_chunk s t pos chunk)"
  by (simp add: copy_step_def copy_step_body_def Let_def)

lemma run_copy_naming:
  assumes free: "\<not> exists s (candidate sub nm k)"
    and sub: "sub = joinpath out (file_extension f)" and nm: "nm = path_name f"
  shows "i \<le> k \<Longrightarrow>
     \<exists>j. i \<le> j \<and> j \<le> k \<and> \<not> exists s (candidate sub nm j) \<and>
         (\<forall>l. i \<le> l \<and> l < j \<longrightarrow> exists s (candidate sub nm l)) \<and>
         run_copy s f out (Naming (candidate sub nm i) (i + 1)) =
         run_copy s f out (OpenSource (candidate sub nm j))"
proof (induction "k - i" arbitrary: i)
  case 0
  then have "i = k" by simp
  with free have "run_copy s f out (Naming (candidate sub nm i) (i + 1)) =
      run_copy s f out (OpenSource (candidate sub nm i))"
    by (subst run_copy.simps) (simp add: copy_step_Naming)
  with free \<open>i = k\<close> show ?case by auto
next
  case (Suc n)
  show ?case
  proof (cases "exists s (candidate sub nm i)")
    case False
    then have "run_copy s f out (Naming (candidate sub nm i) (i + 1)) =
        run_copy s f out (OpenSource (candidate sub nm i))"
      by (subst run_copy.simps) (simp add: copy_step_Naming)
    with False Suc.prems show ?thesis by auto
  next
    case True
    from Suc.hyps(2) Suc.prems have "n = k - Suc i" "Suc i \<le> k" by simp_all
    from Suc.hyps(1) [OF this] obtain j where j: "Suc i \<le> j" "j \<le> k"
      "\<not> exists s (candidate sub nm j)"
      "\<forall>l. Suc i \<le> l \<and> l < j \<longrightarrow> exists s (candidate sub nm l)"
      "run_copy s f out (Naming (candidate sub nm (Suc i)) (Suc i + 1)) =
       run_copy s f out (OpenSource (candidate sub nm j))"
      by blast
    have step: "run_copy s f out (Naming (candidate sub nm i) (i + 1)) =
          run_copy s f out (Naming (candidate sub nm (Suc i)) (Suc i + 1))"
      using True by (subst run_copy.simps) (simp add: copy_step_Naming_candidate sub nm)
    have "\<forall>l. i \<le> l \<and> l < j \<longrightarrow> exists s (candidate sub nm l)"
    proof (intro allI impI)
      fix l assume "i \<le> l \<and> l < j"
      then have "l = i \<or> (Suc i \<le> l \<and> l < j)" by arith
      with True j(4) show "exists s (candidate sub nm l)" by blast
    qed
    with j step show ?thesis by (intro exI [of _ j]) simp
  qed
qed

lemma run_copy_reading:
  assumes "f \<noteq> t"
  shows "lookup s f = Some (File c) \<Longrightarrow>
     run_copy s f out (Reading t pos) =
       (case copy_loop s f pos t of
          None \<Rightarrow> None
        | Some (Inl e, s1) \<Rightarrow> Some (False, logger ERROR (CopyFailed f e) s1)
        | Some (Inr u, s1) \<Rightarrow> Some (True, logger INFO (FileCopied f t) s1))"
proof (induction "length c - pos" arbitrary: s pos rule: less_induct)
  case less
  show ?case
  proof (cases "read_chunk s f pos 8192")
    case (Inl e)
    then show ?thesis
      by (subst run_copy.simps, subst copy_loop.simps) (simp add: copy_step_Reading)
  next
    case (Inr chunk)
    with less.prems have chunk: "chunk = take 8192 (drop pos c)"
      by (auto simp: read_chunk_def Let_def split: option.splits if_splits)
    show ?thesis
    proof (cases "chunk = []")
      case True
      with Inr show ?thesis
        by (subst run_copy.simps, subst copy_loop.simps) (simp add: copy_step_Reading)
    next
      case False
      let ?s = "write_chunk s t pos chunk"
      from False chunk have "pos < length c" by (cases "pos < length c") auto
      with False have m: "length c - (pos + length chunk) < length c - pos"
        by (cases chunk) auto
      have ls: "lookup ?s f = Some (File c)"
        using assms less.prems by (simp add: lookup_write_chunk)
      have "run_copy s f out (Reading t pos) = run_copy s f out (Writing t pos chunk)"
        using Inr False by (subst run_copy.simps) (simp add: copy_step_Reading)
      also have "\<dots> = run_copy ?s f out (Reading t (pos + length chunk))"
        by (subst run_copy.simps) (simp add: copy_step_Writing)
      also have "\<dots> =
          (case copy_loop ?s f (pos + length chunk) t of
             None \<Rightarrow> None
           | Some (Inl e, s1) \<Rightarrow> Some (False, logger ERROR (CopyFailed f e) s1)
           | Some (Inr u, s1) \<Rightarrow> Some (True, logger INFO (FileCopied f t) s1))"
        by (rule less.hyps [OF m ls])
      also have "copy_loop ?s f (pos + length chunk) t = copy_loop s f pos t"
        using Inr False by (subst (2) copy_loop.simps) simp
      finally show ?thesis .
    qed
  qed
qed

lemma run_copy_is_copy_file: "run_copy s f out Start = copy_file s f out"
proof -
  let ?sub = "joinpath out (file_extension f)"
  let ?nm = "path_name f"
  obtain r1 s1 where mk: "makedirs s ?sub = (r1, s1)" by fastforce
  show ?thesis
  proof (cases r1)
    case (Inl e)
    with mk show ?thesis
      by (subst run_copy.simps)
        (simp add: copy_step_Start copy_file_def copy_file_body_def Let_def)
  next
    case (Inr u)
    obtain k where k: "\<not> exists s1 (candidate ?sub ?nm k)" using free_candidate by blast
    from run_copy_naming [OF k refl refl, of 0] obtain j where
      j: "\<not> exists s1 (candidate ?sub ?nm j)"
         "\<forall>l<j. exists s1 (candidate ?sub ?nm l)"
         "run_copy s1 f out (Naming (candidate ?sub ?nm 0) 1) =
          run_copy s1 f out (OpenSource (candidate ?sub ?nm j))"
      by auto
    let ?t = "candidate ?sub ?nm j"
    from resolve_target_first_free [of "exists s1" ?sub ?nm j] j(1,2)
    have res: "resolve_target (exists s1) ?sub ?nm = Some ?t"
      by (metis le_neq_implies_less)
    have start: "run_copy s f out Start = run_copy s1 f out (OpenSource ?t)"
      using mk Inr j(3) by (subst run_copy.simps) (simp add: copy_step_Start)
    show ?thesis
    proof (cases "open_rb s1 f")
      case (Inl e)
      then have "run_copy s1 f out (OpenSource ?t) =
          Some (False, logger ERROR (CopyFailed f e) s1)"
        by (subst run_copy.simps) (simp add: copy_step_OpenSource)
      with start mk Inr res Inl show ?thesis
        by (simp add: copy_file_def copy_file_body_def Let_def)
    next
      case opened: (Inr v)
      then obtain c where c: "lookup s1 f = Some (File c)" using open_rb_file by blast
      from j(1) have "lookup s1 ?t = None" by (simp add: not_exists_lookup)
      with c have neq: "f \<noteq> ?t" by auto
      have o1: "run_copy s1 f out (OpenSource ?t) = run_copy s1 f out (OpenTarget ?t)"
        using opened by (subst run_copy.simps) (simp add: copy_step_OpenSource)
      obtain r2 s2 where w: "open_wb s1 ?t = (r2, s2)" by fastforce
      show ?thesis
      proof (cases r2)
        case (Inl e)
        with w have "run_copy s1 f out (OpenTarget ?t) =
            Some (False, logger ERROR (CopyFailed f e) s2)"
          by (subst run_copy.simps) (simp add: copy_step_OpenTarget)
        with start o1 mk Inr res opened w Inl show ?thesis
          by (simp add: copy_file_def copy_file_body_def Let_def)
      next
        case created: (Inr x)
        with open_wb_result [OF w] neq c have c2: "lookup s2 f = Some (File c)" by simp
        have o2: "run_copy s1 f out (OpenTarget ?t) = run_copy s2 f out (Reading ?t 0)"
          using w created by (subst run_copy.simps) (simp add: copy_step_OpenTarget)
        from start o1 o2 run_copy_reading [OF neq c2, of out 0]
        have "run_copy s f out Start =
          (case copy_loop s2 f 0 ?t of
             None \<Rightarrow> None
           | Some (Inl e, s3) \<Rightarrow> Some (False, logger ERROR (CopyFailed f e) s3)
           | Some (Inr u, s3) \<Rightarrow> Some (True, logger INFO (FileCopied f ?t) s3))"
          by simp
        with mk Inr res opened w created show ?thesis
          by (simp add: copy_file_def copy_file_body_def Let_def
              split: option.splits prod.splits sum.splits)
      qed
    qed
  qed
qed

lemma run_copy_steps_aux:
  assumes "run_copy s f out ph = Some y"
  shows "\<forall>c i. sys c = s \<and> i < length (tasks c) \<and> tasks c ! i = Running f ph \<longrightarrow>
     (sched_step out)\<^sup>*\<^sup>* c
       (c\<lparr>sys := snd y, permits := permits c + 1, tasks := (tasks c)[i := Done (fst y)]\<rparr>)"
proof (rule run_copy.raw_induct
    [where P = "\<lambda>s f out ph y. \<forall>c i. sys c = s \<and> i < length (tasks c) \<and>
        tasks c ! i = Running f ph \<longrightarrow>
        (sched_step out)\<^sup>*\<^sup>* c
          (c\<lparr>sys := snd y, permits := permits c + 1, tasks := (tasks c)[i := Done (fst y)]\<rparr>)",
     OF _ assms])
  fix rc :: "system \<Rightarrow> path \<Rightarrow> path \<Rightarrow> phase \<Rightarrow> (bool \<times> system) option"
  fix s f out ph y
  assume IH: "\<And>s f out ph y. rc s f out ph = Some y \<Longrightarrow>
      \<forall>c i. sys c = s \<and> i < length (tasks c) \<and> tasks c ! i = Running f ph \<longrightarrow>
        (sched_step out)\<^sup>*\<^sup>* c
          (c\<lparr>sys := snd y, permits := permits c + 1, tasks := (tasks c)[i := Done (fst y)]\<rparr>)"
  assume eq: "(case copy_step s f out ph of
      (Inl b, s1) \<Rightarrow> Some (b, s1)
    | (Inr ph1, s1) \<Rightarrow> rc s1 f out ph1) = Some y"
  show "\<forall>c i. sys c = s \<and> i < length (tasks c) \<and> tasks c ! i = Running f ph \<longrightarrow>
        (sched_step out)\<^sup>*\<^sup>* c
          (c\<lparr>sys := snd y, permits := permits c + 1, tasks := (tasks c)[i := Done (fst y)]\<rparr>)"
  proof (intro allI impI)
    fix c :: config and i
    assume a: "sys c = s \<and> i < length (tasks c) \<and> tasks c ! i = Running f ph"
    obtain r s1 where st: "copy_step s f out ph = (r, s1)" by fastforce
    show "(sched_step out)\<^sup>*\<^sup>* c
       (c\<lparr>sys := snd y, permits := permits c + 1, tasks := (tasks c)[i := Done (fst y)]\<rparr>)"
    proof (cases r)
      case (Inl b)
      with st eq have y: "y = (b, s1)" by simp
      from a st Inl have "sched_step out c
          (c\<lparr>sys := s1, permits := permits c + 1, tasks := (tasks c)[i := Done b]\<rparr>)"
        by (intro sched_step.finish) auto
      with y show ?thesis by auto
    next
      case (Inr ph1)
      with st eq have rec: "rc s1 f out ph1 = Some y" by simp
      let ?c1 = "c\<lparr>sys := s1, tasks := (tasks c)[i := Running f ph1]\<rparr>"
      from a st Inr have s1: "sched_step out c ?c1"
        by (intro sched_step.advance) auto
      from a have "sys ?c1 = s1 \<and> i < length (tasks ?c1) \<and> tasks ?c1 ! i = Running f ph1"
        by simp
      with IH [OF rec] have "(sched_step out)\<^sup>*\<^sup>* ?c1
         (?c1\<lparr>sys := snd y, permits := permits ?c1 + 1,
               tasks := (tasks ?c1)[i := Done (fst y)]\<rparr>)"
        by blast
      then have "(sched_step out)\<^sup>*\<^sup>* ?c1
         (c\<lparr>sys := snd y, permits := permits c + 1, tasks := (tasks c)[i := Done (fst y)]\<rparr>)"
        by simp
      with s1 show ?thesis by (rule converse_rtranclp_into_rtranclp)
    qed
  qed
qed

lemma run_copy_steps:
  assumes "run_copy (sys c) f out ph = Some (b, s')"
    and "i < length (tasks c)" and "tasks c ! i = Running f ph"
  shows "(sched_step out)\<^sup>*\<^sup>* c
       (c\<lparr>sys := s', permits := permits c + 1, tasks := (tasks c)[i := Done b]\<rparr>)"
  using run_copy_steps_aux [OF assms(1)] assms(2,3) by auto











section \<open>The scheduler\<close>

lemma filter_length_update:
  "i < length xs \<Longrightarrow>
   length (filter P (xs[i := y])) + (if P (xs ! i) then 1 else 0) =
   length (filter P xs) + (if P y then 1 else 0)"
proof (induction xs arbitrary: i)
  case Nil
  then show ?case by simp
next
  case (Cons x xs)
  show ?case
  proof (cases i)
    case 0
    then show ?thesis by simp
  next
    case (Suc k)
    with Cons.prems have "k < length xs" by simp
    from Cons.IH [OF this] Suc show ?thesis by simp
  qed
qed

lemma sched_step_invariant:
  assumes "sched_step target_root c c'"
  shows "length (tasks c') = length (tasks c) \<and>
         permits c' + in_flight c' = permits c + in_flight c"
  using assms
proof cases
  case (acquire i file_path)
  from filter_length_update [OF acquire(2), of is_running "Running file_path Start"] acquire(3)
  have "in_flight c' = in_flight c + 1"
    using acquire(1) by (simp add: in_flight_def)
  with acquire show ?thesis by simp
next
  case (advance i file_path ph ph1 s1)
  from filter_length_update [OF advance(2), of is_running "Running file_path ph1"] advance(3)
  have "in_flight c' = in_flight c"
    using advance(1) by (simp add: in_flight_def)
  with advance show ?thesis by simp
next
  case (finish i file_path ph b s1)
  from filter_length_update [OF finish(2), of is_running "Done b"] finish(3)
  have "in_flight c' + 1 = in_flight c"
    using finish(1) by (simp add: in_flight_def)
  with finish show ?thesis by simp
qed

lemma steps_invariant:
  assumes "(sched_step target_root)\<^sup>*\<^sup>* c c'"
  shows "length (tasks c') = length (tasks c) \<and>
         permits c' + in_flight c' = permits c + in_flight c"
  using assms
proof (induction rule: rtranclp_induct)
  case base
  then show ?case by simp
next
  case (step y z)
  with sched_step_invariant [OF step(2)] show ?case by simp
qed

lemma in_flight_initial: "in_flight (initial s n files) = 0"
  by (simp add: in_flight_def initial_def filter_empty_conv)

lemma reachable_invariant:
  assumes "reachable target_root s n files c"
  shows "length (tasks c) = length files \<and> permits c + in_flight c = nat n"
  using steps_invariant [of target_root "initial s n files" c] assms
  by (simp add: reachable_def in_flight_initial) (simp add: initial_def)








lemma copy_in_order_run:
  assumes p: "0 < p"
  shows "copy_in_order s fs target_root = Some (rs, s') \<Longrightarrow>
     (sched_step target_root)\<^sup>*\<^sup>*
       \<lparr>sys = s, permits = p, tasks = map Done ds @ map Waiting fs\<rparr>
       \<lparr>sys = s', permits = p, tasks = map Done (ds @ rs)\<rparr>"
proof (induction fs arbitrary: s ds rs)
  case Nil
  then show ?case by simp
next
  case (Cons f fs)
  from Cons.prems obtain b s1 bs where
    cf: "copy_file s f target_root = Some (b, s1)" and
    rest: "copy_in_order s1 fs target_root = Some (bs, s')" and
    rs: "rs = b # bs"
    by (auto split: option.splits)
  let ?c0 = "\<lparr>sys = s, permits = p, tasks = map Done ds @ map Waiting (f # fs)\<rparr>"
  let ?c1 = "\<lparr>sys = s, permits = p - 1, tasks = map Done ds @ Running f Start # map Waiting fs\<rparr>"
  let ?c2 = "\<lparr>sys = s1, permits = p, tasks = map Done (ds @ [b]) @ map Waiting fs\<rparr>"
  have i0: "length ds < length (tasks ?c0)" by simp
  have w0: "tasks ?c0 ! length ds = Waiting f" by (simp add: nth_append)
  have "sched_step target_root ?c0
          (?c0\<lparr>permits := permits ?c0 - 1, tasks := (tasks ?c0)[length ds := Running f Start]\<rparr>)"
    using p by (intro sched_step.acquire i0 w0) simp
  moreover have "?c0\<lparr>permits := permits ?c0 - 1,
      tasks := (tasks ?c0)[length ds := Running f Start]\<rparr> = ?c1"
    by (simp add: list_update_append)
  ultimately have a: "sched_step target_root ?c0 ?c1" by simp
  have i1: "length ds < length (tasks ?c1)" by simp
  have w1: "tasks ?c1 ! length ds = Running f Start" by (simp add: nth_append)
  have cf1: "run_copy (sys ?c1) f target_root Start = Some (b, s1)"
    using cf by (simp add: run_copy_is_copy_file)
  have "(sched_step target_root)\<^sup>*\<^sup>* ?c1
          (?c1\<lparr>sys := s1, permits := permits ?c1 + 1, tasks := (tasks ?c1)[length ds := Done b]\<rparr>)"
    by (rule run_copy_steps [OF cf1 i1 w1])
  moreover have "?c1\<lparr>sys := s1, permits := permits ?c1 + 1,
      tasks := (tasks ?c1)[length ds := Done b]\<rparr> = ?c2"
    using p by (simp add: list_update_append)
  ultimately have b: "(sched_step target_root)\<^sup>*\<^sup>* ?c1 ?c2" by simp
  from Cons.IH [OF rest, of "ds @ [b]"] rs
  have "(sched_step target_root)\<^sup>*\<^sup>* ?c2 \<lparr>sys = s', permits = p, tasks = map Done (ds @ rs)\<rparr>"
    by simp
  with a b show ?case by (meson converse_rtranclp_into_rtranclp rtranclp_trans)
qed

lemma copy_in_order_gather:
  assumes "0 < n" and "copy_in_order s files target_root = Some (rs, s')"
  shows "gather target_root s n files rs s'"
proof -
  from assms(1) have "0 < nat n" by simp
  from copy_in_order_run [OF this assms(2), of "[]"]
  have r: "reachable target_root s n files \<lparr>sys = s', permits = nat n, tasks = map Done rs\<rparr>"
    by (simp add: reachable_def initial_def)
  show ?thesis unfolding gather_def
  proof (intro exI conjI)
    show "reachable target_root s n files \<lparr>sys = s', permits = nat n, tasks = map Done rs\<rparr>"
      by (rule r)
    show "tasks \<lparr>sys = s', permits = nat n, tasks = map Done rs\<rparr> = map Done rs"
      by simp
    show "sys \<lparr>sys = s', permits = nat n, tasks = map Done rs\<rparr> = s'"
      by simp
  qed
qed

lemma copy_in_order_total: "\<exists>rs s'. copy_in_order s files target_root = Some (rs, s')"
proof (induction files arbitrary: s)
  case Nil
  then show ?case by simp
next
  case (Cons f fs)
  obtain b s1 where "copy_file s f target_root = Some (b, s1)" using copy_file_total by blast
  moreover obtain bs s2 where "copy_in_order s1 fs target_root = Some (bs, s2)"
    using Cons.IH by blast
  ultimately show ?case by simp
qed

lemma counts_add_up: "successful results + failed results = int (length results)"
  by (simp add: failed_def)



section \<open>What a run leaves unchanged\<close>

lemma kept_off_target:
  assumes k: "kept s0 s" and t: "lookup s0 t = None"
    and o: "\<And>q. q \<noteq> t \<Longrightarrow> lookup s1 q = lookup s q"
  shows "kept s0 s1"
proof -
  have "lookup s1 q = lookup s q" if "lookup s0 q \<noteq> None" for q
  proof -
    from that t have "q \<noteq> t" by auto
    then show ?thesis by (rule o)
  qed
  with k show ?thesis unfolding kept_def by (metis option.distinct(1))
qed

lemma kept_not_exists: "kept s0 s \<Longrightarrow> \<not> exists s t \<Longrightarrow> lookup s0 t = None"
proof (rule ccontr)
  assume k: "kept s0 s" and e: "\<not> exists s t" and n: "lookup s0 t \<noteq> None"
  from k n have "lookup s t \<noteq> None" by (rule kept_exists)
  with e show False by (simp add: exists_def)
qed

lemma copy_step_kept:
  assumes k: "kept s0 s"
    and t: "\<And>t. target_of ph = Some t \<Longrightarrow> lookup s0 t = None"
    and st: "copy_step s f out ph = (r, s')"
  shows "kept s0 s' \<and> (\<forall>ph1 t1. r = Inr ph1 \<longrightarrow> target_of ph1 = Some t1 \<longrightarrow> lookup s0 t1 = None)"
proof (cases ph)
  case Start
  obtain r1 s1 where mk: "makedirs s (joinpath out (file_extension f)) = (r1, s1)" by fastforce
  then have "kept s s1" using makedirs_grown grown_kept by blast
  with k have k1: "kept s0 s1" by (rule kept_trans)
  show ?thesis
  proof (cases r1)
    case (Inl e)
    with st Start mk k1 show ?thesis by (auto simp: copy_step_Start kept_logger)
  next
    case (Inr u)
    with st Start mk k1 show ?thesis by (auto simp: copy_step_Start)
  qed
next
  case (Naming t1 k1)
  with st k show ?thesis
    by (auto simp: copy_step_Naming kept_not_exists split: if_splits)
next
  case (OpenSource t1)
  with st k t show ?thesis
    by (auto simp: copy_step_OpenSource kept_logger split: sum.splits)
next
  case (OpenTarget t1)
  with t have new: "lookup s0 t1 = None" by simp
  obtain r1 s1 where w: "open_wb s t1 = (r1, s1)" by fastforce
  show ?thesis
  proof (cases r1)
    case (Inl e)
    with open_wb_result [OF w] have "s1 = s" by simp
    with st OpenTarget w Inl k show ?thesis by (auto simp: copy_step_OpenTarget kept_logger)
  next
    case (Inr u)
    with open_wb_result [OF w] have "\<And>q. q \<noteq> t1 \<Longrightarrow> lookup s1 q = lookup s q" by simp
    with k new have "kept s0 s1" by (rule kept_off_target)
    with st OpenTarget w Inr new show ?thesis by (auto simp: copy_step_OpenTarget)
  qed
next
  case (Reading t1 pos)
  with st k t show ?thesis
    by (auto simp: copy_step_Reading kept_logger split: sum.splits if_splits)
next
  case (Writing t1 pos chunk)
  with t have new: "lookup s0 t1 = None" by simp
  have "\<And>q. q \<noteq> t1 \<Longrightarrow> lookup (write_chunk s t1 pos chunk) q = lookup s q"
    by (simp add: lookup_write_chunk)
  with k new have "kept s0 (write_chunk s t1 pos chunk)" by (rule kept_off_target)
  with st Writing new show ?thesis by (auto simp: copy_step_Writing)
qed

lemma sched_step_kept:
  assumes "sched_step target_root c c'" and k: "kept s0 (sys c)" and tn: "targets_new s0 c"
  shows "kept s0 (sys c') \<and> targets_new s0 c'"
  using assms(1)
proof cases
  case (acquire i file_path)
  have "targets_new s0 c'"
    unfolding targets_new_def
  proof (intro allI impI)
    fix k f ph t
    assume a: "k < length (tasks c')" "tasks c' ! k = Running f ph" "target_of ph = Some t"
    show "lookup s0 t = None"
    proof (cases "k = i")
      case True
      with a acquire show ?thesis by simp
    next
      case False
      with a acquire tn show ?thesis by (auto simp: targets_new_def)
    qed
  qed
  with acquire k show ?thesis by simp
next
  case (advance i file_path ph ph1 s1)
  from tn advance(2,3) have "\<And>t. target_of ph = Some t \<Longrightarrow> lookup s0 t = None"
    by (auto simp: targets_new_def)
  from copy_step_kept [OF k this advance(4)]
  have k1: "kept s0 s1" and t1: "\<And>t1. target_of ph1 = Some t1 \<Longrightarrow> lookup s0 t1 = None"
    by auto
  have "targets_new s0 c'"
    unfolding targets_new_def
  proof (intro allI impI)
    fix k f ph' t
    assume a: "k < length (tasks c')" "tasks c' ! k = Running f ph'" "target_of ph' = Some t"
    show "lookup s0 t = None"
    proof (cases "k = i")
      case True
      with a advance t1 show ?thesis by simp
    next
      case False
      with a advance tn show ?thesis by (auto simp: targets_new_def)
    qed
  qed
  with advance k1 show ?thesis by simp
next
  case (finish i file_path ph b s1)
  from tn finish(2,3) have "\<And>t. target_of ph = Some t \<Longrightarrow> lookup s0 t = None"
    by (auto simp: targets_new_def)
  from copy_step_kept [OF k this finish(4)] have k1: "kept s0 s1" by auto
  have "targets_new s0 c'"
    unfolding targets_new_def
  proof (intro allI impI)
    fix k f ph' t
    assume a: "k < length (tasks c')" "tasks c' ! k = Running f ph'" "target_of ph' = Some t"
    show "lookup s0 t = None"
    proof (cases "k = i")
      case True
      with a finish show ?thesis by simp
    next
      case False
      with a finish tn show ?thesis by (auto simp: targets_new_def)
    qed
  qed
  with finish k1 show ?thesis by simp
qed

lemma reachable_kept:
  assumes "reachable target_root s0 n files c"
  shows "kept s0 (sys c) \<and> targets_new s0 c"
proof -
  have "(sched_step target_root)\<^sup>*\<^sup>* (initial s0 n files) c"
    using assms by (simp add: reachable_def)
  then show ?thesis
  proof (induction rule: rtranclp_induct)
    case base
    show ?case by (simp add: initial_def kept_refl targets_new_def)
  next
    case (step y z)
    from sched_step_kept [OF step(2)] step(3) show ?case by blast
  qed
qed




section \<open>The destination of a copy\<close>





section \<open>The log file\<close>

lemma kept_foldl_logger:
  "kept s0 s \<Longrightarrow> kept s0 (foldl (\<lambda>t item. logger lvl (mk item) t) s items)"
  by (induction items arbitrary: s) (simp_all add: kept_logger)

lemma kept_read_folder: "read_folder s p = (files, s1) \<Longrightarrow> kept s s1"
  by (auto simp: read_folder_def Let_def kept_by_logger kept_logger kept_foldl_logger kept_refl
      split: if_splits)

lemma kept_gather:
  assumes "gather target_root s n files results s'"
  shows "kept s s'"
  using assms reachable_kept unfolding gather_def by blast

lemma process_files_kept:
  assumes "process_files s source_folder target_root n s'"
  shows "kept s s'"
  using assms
proof cases
  case (output_folder_failed e s1)
  then show ?thesis using makedirs_grown grown_kept kept_logger by blast
next
  case (no_files s1 s2)
  then show ?thesis
    using makedirs_grown grown_kept kept_read_folder kept_trans kept_logger by blast
next
  case (semaphore_failed s1 files s2)
  then show ?thesis
    using makedirs_grown grown_kept kept_read_folder kept_trans kept_logger by blast
next
  case (processed s1 files s2 results s3)
  from processed(2) have "kept s s1" using makedirs_grown grown_kept by blast
  moreover from processed(3) have "kept s1 s2" by (rule kept_read_folder)
  moreover from processed(6) have "kept s2 s3" by (rule kept_gather)
  ultimately have "kept s s3" using kept_trans by blast
  with processed(1) show ?thesis by (simp add: kept_logger)
qed

lemma update_same: "map_of al k = Some v \<Longrightarrow> AList.update k v al = al"
  by (induction al) (auto split: if_splits)

lemma entries_logged_Nil: "entries_logged s [] = entries s"
  by (auto simp: entries_logged_def logged_lines_def lookup_def update_same
      split: option.splits node.splits)

lemma entries_logger:
  "entries (logger lvl msg s) =
     (if level_no (threshold s) \<le> level_no lvl
      then (case lookup s log_file of
              Some (File c) \<Rightarrow>
                AList.update log_file
                  (File (c @ format_record s (length (log_records s)) lvl msg)) (entries s)
            | _ \<Rightarrow> entries s)
      else entries s)"
  by (auto simp: logger_def emit_def split: option.splits node.splits)

lemma format_record_formats: "formats s1 = formats s \<Longrightarrow> format_record s1 = format_record s"
  by (intro ext) (simp add: format_record_def)

lemma logged_lines_snoc:
  "logged_lines s (rs @ [(lvl, msg)]) =
     logged_lines s rs @ format_record s (length (log_records s) + length rs) lvl msg"
  by (simp add: logged_lines_def)

lemma entries_logged_logger:
  assumes e: "entries s1 = entries_logged s rs" and f: "formats s1 = formats s"
    and l: "log_records s1 = log_records s @ rs"
  shows "entries (logger lvl msg s1) =
         entries_logged s
           (rs @ (if level_no (threshold s1) \<le> level_no lvl then [(lvl, msg)] else []))"
proof (cases "level_no (threshold s1) \<le> level_no lvl")
  case False
  with e show ?thesis by (simp add: entries_logger)
next
  case True
  show ?thesis
  proof (cases "\<exists>c. lookup s log_file = Some (File c)")
    case False
    then have "entries_logged s xs = entries s" for xs
      by (auto simp: entries_logged_def split: option.splits node.splits)
    moreover from this e have "lookup s1 log_file = lookup s log_file" by (simp add: lookup_def)
    ultimately show ?thesis using False e True
      by (auto simp: entries_logger split: option.splits node.splits)
  next
    case c: True
    then obtain c where c: "lookup s log_file = Some (File c)" by blast
    with e have e1: "entries s1 = AList.update log_file (File (c @ logged_lines s rs)) (entries s)"
      by (simp add: entries_logged_def)
    then have "lookup s1 log_file = Some (File (c @ logged_lines s rs))"
      by (simp add: lookup_def update_conv')
    with True e1 c show ?thesis
      by (simp add: entries_logger entries_logged_def logged_lines_snoc l
          format_record_formats [OF f])
  qed
qed

lemma level_no_ERROR: "level_no lvl \<le> 40"
  by (cases lvl) simp_all

lemma main_start_state:
  "entries (main_start s a) =
     entries_logged s
       (if args_verbose a \<or> level_no (threshold s) \<le> level_no INFO then opening_records a else []) \<and>
   formats (main_start s a) = formats s \<and>
   log_records (main_start s a) =
     log_records s @
       (if args_verbose a \<or> level_no (threshold s) \<le> level_no INFO then opening_records a else [])"
proof -
  let ?s0 = "if args_verbose a then s\<lparr>threshold := DEBUG\<rparr> else s"
  have e0: "entries ?s0 = entries_logged s []" by (simp add: entries_logged_Nil)
  have f0: "formats ?s0 = formats s" by simp
  have l0: "log_records ?s0 = log_records s @ []" by simp
  have t0: "level_no (threshold ?s0) \<le> level_no INFO \<longleftrightarrow>
      args_verbose a \<or> level_no (threshold s) \<le> level_no INFO" by simp
  let ?s1 = "logger INFO Started ?s0"
  let ?s2 = "logger INFO (SourceFolderIs (args_source_folder a)) ?s1"
  let ?s3 = "logger INFO (OutputFolderIs (args_output_folder a)) ?s2"
  let ?r1 = "[] @ (if level_no (threshold ?s0) \<le> level_no INFO then [(INFO, Started)] else [])"
  let ?r2 = "?r1 @ (if level_no (threshold ?s1) \<le> level_no INFO
                    then [(INFO, SourceFolderIs (args_source_folder a))] else [])"
  let ?r3 = "?r2 @ (if level_no (threshold ?s2) \<le> level_no INFO
                    then [(INFO, OutputFolderIs (args_output_folder a))] else [])"
  have e1: "entries ?s1 = entries_logged s ?r1"
    by (rule entries_logged_logger [OF e0 f0 l0])
  have f1: "formats ?s1 = formats s" by simp
  have l1: "log_records ?s1 = log_records s @ ?r1"
    by (simp add: log_records_logger)
  have e2: "entries ?s2 = entries_logged s ?r2"
    by (rule entries_logged_logger [OF e1 f1 l1])
  have f2: "formats ?s2 = formats s" by simp
  have l2: "log_records ?s2 = log_records s @ ?r2"
    by (simp add: log_records_logger)
  have e3: "entries ?s3 = entries_logged s ?r3"
    by (rule entries_logged_logger [OF e2 f2 l2])
  have f3: "formats ?s3 = formats s" by simp
  have l3: "log_records ?s3 = log_records s @ ?r3"
    by (simp add: log_records_logger)
  note e4 = entries_logged_logger [OF e3 f3 l3, of INFO "MaxConcurrentIs (args_max_concurrent a)"]
  have "entries (main_start s a) =
     entries_logged s
       (if args_verbose a \<or> level_no (threshold s) \<le> level_no INFO then opening_records a else [])"
    unfolding main_start_def using e4 t0 by (simp add: opening_records_def)
  moreover have "log_records (main_start s a) =
     log_records s @
       (if args_verbose a \<or> level_no (threshold s) \<le> level_no INFO then opening_records a else [])"
    by (simp add: main_start_def log_records_logger opening_records_def)
  moreover have "formats (main_start s a) = formats s" by (simp add: main_start_def)
  ultimately show ?thesis by blast
qed

lemma lookup_threshold: "lookup (s\<lparr>threshold := x\<rparr>) p = lookup s p"
  by (simp add: lookup_def)

lemma lookup_main_start: "p \<noteq> log_file \<Longrightarrow> lookup (main_start s a) p = lookup s p"
  by (simp add: main_start_def lookup_logger_other lookup_threshold)

lemma paths_main_start: "map fst (entries (main_start s a)) = map fst (entries s)"
  by (simp add: main_start_def)

lemma exists_main_start: "exists (main_start s a) p = exists s p"
  by (simp add: main_start_def exists_def lookup_threshold)

lemma isdir_main_start: "isdir (main_start s a) p = isdir s p"
  by (simp add: main_start_def isdir_def lookup_threshold)

section \<open>One copy: content, destination and frame\<close>







text \<open>
  C7 as stated fails for the log file. The handler of line 22 keeps \<^verbatim>\<open>file_sorter.log\<close> in
  the working directory, and with the working directory as source folder \<^verbatim>\<open>read_folder\<close>
  lists it among the files to copy; its copy returns \<^verbatim>\<open>True\<close>, and the record of that copy
  (line 109) has changed the source: the log file was empty and now holds a line.
\<close>

theorem copy_changes_log_file:
  "log_file \<in> set (fst (read_folder example_fs [])) \<and>
   lookup example_fs log_file = Some (File []) \<and>
   copy_file example_fs log_file [''out''] = Some (True, example_fs_copied_log) \<and>
   lookup example_fs_copied_log log_file = Some (File [10])"
  by code_simp

text \<open>
  C7, amended. A call of \<open>copy_file\<close> always returns. After it, whether it returned
  \<^verbatim>\<open>True\<close> or \<^verbatim>\<open>False\<close>, and likewise in every configuration that a run of the scheduler
  reaches by whatever interleaving, and after \<open>process_files\<close>, every entry that the file
  table had before, but the log file, is there unchanged: every regular file with its
  bytes, the source files among them, and every directory. The log file is still there
  and holds what it held before, followed by the lines logged since.
\<close>

theorem copy_keeps_other_files:
  "(\<exists>b s'. copy_file s source_file target_root = Some (b, s')) \<and>
   (\<forall>s'. (\<exists>b. copy_file s source_file target_root = Some (b, s')) \<or>
         (\<exists>n files c. reachable target_root s n files c \<and> sys c = s') \<or>
         (\<exists>source_folder n. process_files s source_folder target_root n s') \<longrightarrow>
      (\<forall>q nd. q \<noteq> log_file \<longrightarrow> lookup s q = Some nd \<longrightarrow> lookup s' q = Some nd) \<and>
      (lookup s log_file = Some Dir \<longrightarrow> lookup s' log_file = Some Dir) \<and>
      (\<forall>c0. lookup s log_file = Some (File c0) \<longrightarrow>
         (\<exists>d. lookup s' log_file = Some (File (c0 @ d)))))"
proof (intro conjI allI)
  show "\<exists>b s'. copy_file s source_file target_root = Some (b, s')"
    by (rule copy_file_total)
next
  fix s'
  show "(\<exists>b. copy_file s source_file target_root = Some (b, s')) \<or>
        (\<exists>n files c. reachable target_root s n files c \<and> sys c = s') \<or>
        (\<exists>source_folder n. process_files s source_folder target_root n s') \<longrightarrow>
      (\<forall>q nd. q \<noteq> log_file \<longrightarrow> lookup s q = Some nd \<longrightarrow> lookup s' q = Some nd) \<and>
      (lookup s log_file = Some Dir \<longrightarrow> lookup s' log_file = Some Dir) \<and>
      (\<forall>c0. lookup s log_file = Some (File c0) \<longrightarrow>
         (\<exists>d. lookup s' log_file = Some (File (c0 @ d))))"
  proof
    assume a: "(\<exists>b. copy_file s source_file target_root = Some (b, s')) \<or>
        (\<exists>n files c. reachable target_root s n files c \<and> sys c = s') \<or>
        (\<exists>source_folder n. process_files s source_folder target_root n s')"
    have "kept s s'"
    proof -
      consider (call) b where "copy_file s source_file target_root = Some (b, s')"
        | (run) n files c where "reachable target_root s n files c" "sys c = s'"
        | (all) source_folder n where "process_files s source_folder target_root n s'"
        using a by blast
      then show ?thesis
      proof cases
        case call
        with copy_file_runs [of s source_file target_root] show ?thesis by auto
      next
        case run
        with reachable_kept [of target_root s n files c] show ?thesis by simp
      next
        case all
        then show ?thesis by (rule process_files_kept)
      qed
    qed
    then show "(\<forall>q nd. q \<noteq> log_file \<longrightarrow> lookup s q = Some nd \<longrightarrow> lookup s' q = Some nd) \<and>
      (lookup s log_file = Some Dir \<longrightarrow> lookup s' log_file = Some Dir) \<and>
      (\<forall>c0. lookup s log_file = Some (File c0) \<longrightarrow>
         (\<exists>d. lookup s' log_file = Some (File (c0 @ d))))"
      unfolding kept_def .
  qed
qed

text \<open>
  The theorem at the example state: after the copy of \<^verbatim>\<open>src/a.txt\<close> the source holds its two
  bytes, and the log file, empty before, holds lines.
\<close>

theorem copy_keeps_other_files_witness:
  "copy_file example_fs [''src'', ''a.txt''] [''out''] = Some (True, example_fs_copied) \<and>
   [''src'', ''a.txt''] \<noteq> log_file \<and>
   lookup example_fs [''src'', ''a.txt''] = Some (File [97, 10]) \<and>
   lookup example_fs_copied [''src'', ''a.txt''] = Some (File [97, 10]) \<and>
   lookup example_fs log_file = Some (File []) \<and>
   (\<exists>d. lookup example_fs_copied log_file = Some (File ([] @ d)))"
proof -
  have run: "copy_file example_fs [''src'', ''a.txt''] [''out''] = Some (True, example_fs_copied)"
    by code_simp
  have other: "[''src'', ''a.txt''] \<noteq> log_file"
    by (simp add: log_file_def)
  have src: "lookup example_fs [''src'', ''a.txt''] = Some (File [97, 10])"
    by code_simp
  have lg: "lookup example_fs log_file = Some (File [])"
    by code_simp
  from copy_keeps_other_files [of example_fs "[''src'', ''a.txt'']" "[''out'']"] run
  have frame:
    "\<forall>q nd. q \<noteq> log_file \<longrightarrow> lookup example_fs q = Some nd \<longrightarrow>
        lookup example_fs_copied q = Some nd"
    "\<forall>c0. lookup example_fs log_file = Some (File c0) \<longrightarrow>
        (\<exists>d. lookup example_fs_copied log_file = Some (File (c0 @ d)))"
    by blast+
  from frame(1) other src have "lookup example_fs_copied [''src'', ''a.txt''] = Some (File [97, 10])"
    by blast
  moreover from frame(2) lg have "\<exists>d. lookup example_fs_copied log_file = Some (File ([] @ d))"
    by blast
  ultimately show ?thesis using run other src lg by blast
qed

text \<open>
  C10. A name that starts with a dot and holds no other dot has the key \<^verbatim>\<open>no_extension\<close>
  (\<^verbatim>\<open>rfind\<close> gives the index 0, so the suffix is empty), and when such a file, for instance
  \<^verbatim>\<open>.bashrc\<close>, is copied, the copy lies in the directory \<^verbatim>\<open>output_folder/no_extension\<close>.
\<close>

theorem dotfile_no_extension:
  assumes "path_name source_file = CHR ''.'' # rest" and "CHR ''.'' \<notin> set rest"
  shows "file_extension source_file = ''no_extension'' \<and>
         (rest \<noteq> [] \<longrightarrow>
            (\<forall>s target_root s'. copy_file s source_file target_root = Some (True, s') \<longrightarrow>
               (\<exists>c target_file. butlast target_file = target_root @ [''no_extension''] \<and>
                   lookup s source_file = Some (File c) \<and>
                   lookup s' target_file = Some (File c))))"
proof (intro conjI impI allI)
  show ext: "file_extension source_file = ''no_extension''"
    using assms by (simp add: file_extension_def classify_dotfile)
  fix s target_root s'
  assume rest: "rest \<noteq> []" and ok: "copy_file s source_file target_root = Some (True, s')"
  let ?sub = "joinpath target_root (file_extension source_file)"
  let ?nm = "path_name source_file"
  from rest assms(1) have proper: "?nm \<noteq> []" "?nm \<noteq> ''.''" by simp_all
  from copy_file_runs [of s source_file target_root] ok
  obtain c j where
    src: "lookup s source_file = Some (File c)" and
    dst: "lookup s' (candidate ?sub ?nm j) = Some (File c)"
    by auto
  have "butlast (candidate ?sub ?nm j) = target_root @ [''no_extension'']"
    using proper ext target_subfolder_eq [of target_root source_file]
    by (simp add: butlast_candidate)
  with src dst show "\<exists>c target_file. butlast target_file = target_root @ [''no_extension''] \<and>
      lookup s source_file = Some (File c) \<and> lookup s' target_file = Some (File c)"
    by blast
qed

text \<open>The theorem at the example state: \<^verbatim>\<open>src/.bashrc\<close> goes to \<^verbatim>\<open>out/no_extension\<close>.\<close>

theorem dotfile_no_extension_witness:
  "path_name [''src'', ''.bashrc''] = CHR ''.'' # ''bashrc'' \<and>
   CHR ''.'' \<notin> set ''bashrc'' \<and>
   file_extension [''src'', ''.bashrc''] = ''no_extension'' \<and>
   copy_file example_fs [''src'', ''.bashrc''] [''out''] = Some (True, example_fs_copied_dotfile) \<and>
   (\<exists>c target_file. butlast target_file = [''out''] @ [''no_extension''] \<and>
       lookup example_fs [''src'', ''.bashrc''] = Some (File c) \<and>
       lookup example_fs_copied_dotfile target_file = Some (File c))"
proof -
  have nm: "path_name [''src'', ''.bashrc''] = CHR ''.'' # ''bashrc''"
    by code_simp
  have nodot: "CHR ''.'' \<notin> set ''bashrc''"
    by simp
  have run: "copy_file example_fs [''src'', ''.bashrc''] [''out''] =
      Some (True, example_fs_copied_dotfile)"
    by code_simp
  have rest: "''bashrc'' \<noteq> []"
    by simp
  from dotfile_no_extension [OF nm nodot] rest run nm nodot show ?thesis
    by blast
qed

section \<open>Runs of the scheduler\<close>


text \<open>
  C4. With a positive \<^verbatim>\<open>max_concurrent\<close>, in every configuration that the scheduler can
  reach, by whatever interleaving of its tasks, the number of copies in flight is at most
  \<^verbatim>\<open>max_concurrent\<close>: the permits left and the copies in flight always add up to
  \<^verbatim>\<open>max_concurrent\<close>.
\<close>

theorem semaphore_bounds_copies:
  assumes "reachable target_root s n files c" and "0 < n"
  shows "int (in_flight c) \<le> n \<and> permits c + in_flight c = nat n"
  using reachable_invariant [OF assms(1)] assms(2) by auto

text \<open>
  The theorem with one permit and two files, after the first task has taken the permit:
  one copy is in flight.
\<close>

theorem semaphore_bounds_copies_witness:
  "reachable [''out''] example_fs 1 [[''src'', ''a.txt''], [''src'', ''b.TXT'']]
     \<lparr>sys = example_fs, permits = 0,
      tasks = [Running [''src'', ''a.txt''] Start, Waiting [''src'', ''b.TXT'']]\<rparr> \<and>
   (0::int) < 1 \<and>
   in_flight \<lparr>sys = example_fs, permits = 0,
      tasks = [Running [''src'', ''a.txt''] Start, Waiting [''src'', ''b.TXT'']]\<rparr> = 1 \<and>
   int (in_flight \<lparr>sys = example_fs, permits = 0,
      tasks = [Running [''src'', ''a.txt''] Start, Waiting [''src'', ''b.TXT'']]\<rparr>) \<le> 1"
proof -
  let ?files = "[[''src'', ''a.txt''], [''src'', ''b.TXT'']]"
  let ?c0 = "initial example_fs 1 ?files"
  let ?c1 = "\<lparr>sys = example_fs, permits = 0,
      tasks = [Running [''src'', ''a.txt''] Start, Waiting [''src'', ''b.TXT'']]\<rparr>"
  have "sched_step [''out''] ?c0
          (?c0\<lparr>permits := permits ?c0 - 1,
               tasks := (tasks ?c0)[0 := Running [''src'', ''a.txt''] Start]\<rparr>)"
    by (rule sched_step.acquire) (simp_all add: initial_def)
  moreover have "?c0\<lparr>permits := permits ?c0 - 1,
      tasks := (tasks ?c0)[0 := Running [''src'', ''a.txt''] Start]\<rparr> = ?c1"
    by (simp add: initial_def)
  ultimately have "sched_step [''out''] ?c0 ?c1" by simp
  then have r: "reachable [''out''] example_fs 1 ?files ?c1"
    by (simp add: reachable_def)
  have n: "(0::int) < 1" by simp
  have one: "in_flight ?c1 = 1" by (simp add: in_flight_def)
  from semaphore_bounds_copies [OF r n] r one show ?thesis by simp
qed

text \<open>
  C2. With a positive \<^verbatim>\<open>max_concurrent\<close>, \<^verbatim>\<open>gather\<close> returns for every list of files, and
  whatever run it returns from, it returns one outcome for each file, and the counts of
  the summary, \<open>successful\<close> and \<open>failed\<close>, add up to the number of files, whichever copies
  failed.
\<close>

theorem gather_one_outcome_per_file:
  assumes "0 < n"
  shows "(\<exists>results s'. gather target_root s n files results s') \<and>
         (\<forall>results s'. gather target_root s n files results s' \<longrightarrow>
            length results = length files \<and>
            successful results + failed results = int (length files))"
proof (intro conjI allI impI)
  obtain rs s' where "copy_in_order s files target_root = Some (rs, s')"
    using copy_in_order_total by blast
  with assms have "gather target_root s n files rs s'" by (rule copy_in_order_gather)
  then show "\<exists>results s'. gather target_root s n files results s'" by blast
next
  fix results s'
  assume "gather target_root s n files results s'"
  then obtain c where "reachable target_root s n files c" "tasks c = map Done results"
    by (auto simp: gather_def)
  with reachable_invariant [of target_root s n files c]
  show l: "length results = length files" by simp
  then show "successful results + failed results = int (length files)"
    by (simp add: counts_add_up)
qed

text \<open>The theorem with one permit, for a missing file and a file that is there.\<close>

theorem gather_one_outcome_per_file_witness:
  "(0::int) < 1 \<and>
   (\<exists>results s'. gather [''out''] example_fs 1 [[''src'', ''zz''], [''src'', ''a.txt'']] results s' \<and>
      length results = 2 \<and> successful results + failed results = 2)"
proof -
  have n: "(0::int) < 1" by simp
  from gather_one_outcome_per_file [OF n, of "[''out'']" example_fs "[[''src'', ''zz''], [''src'', ''a.txt'']]"]
  obtain results s' where
    g: "gather [''out''] example_fs 1 [[''src'', ''zz''], [''src'', ''a.txt'']] results s'" and
    a: "\<forall>results s'. gather [''out''] example_fs 1 [[''src'', ''zz''], [''src'', ''a.txt'']] results s' \<longrightarrow>
            length results = length [[''src'', ''zz''], [''src'', ''a.txt'']] \<and>
            successful results + failed results = int (length [[''src'', ''zz''], [''src'', ''a.txt'']])"
    by blast
  from a g have "length results = length [[''src'', ''zz''], [''src'', ''a.txt'']] \<and>
      successful results + failed results = int (length [[''src'', ''zz''], [''src'', ''a.txt'']])"
    by blast
  then have "length results = 2 \<and> successful results + failed results = 2"
    by (simp add: numeral_2_eq_2)
  with g n show ?thesis by blast
qed


section \<open>Faults, and \<^verbatim>\<open>main\<close> with an invalid source folder\<close>


text \<open>
  C9. When the source folder does not exist or is not a directory, \<^verbatim>\<open>main\<close> returns, and
  however it returns, the log is the log from before, the opening records, and one
  \<^verbatim>\<open>ERROR\<close> record that names the source folder, and the file table is the table from before
  with the lines of these records at the end of the log file: no path is new (no output
  folder is made and no file is copied), and every entry but the log file is unchanged.
\<close>

theorem main_rejects_invalid_source:
  assumes "\<not> exists s (args_source_folder a) \<or> \<not> isdir s (args_source_folder a)"
  shows "(\<exists>s'. main s a s') \<and>
         (\<forall>s'. main s a s' \<longrightarrow>
            (\<exists>msg. (msg = SourceFolderMissing (args_source_folder a) \<or>
                    msg = PathNotAFolder (args_source_folder a)) \<and>
                   log_records s' =
                     log_records s @
                       (if args_verbose a \<or> level_no (threshold s) \<le> level_no INFO
                        then opening_records a else []) @
                       [(ERROR, msg)] \<and>
                   entries s' =
                     entries_logged s
                       ((if args_verbose a \<or> level_no (threshold s) \<le> level_no INFO
                         then opening_records a else []) @
                        [(ERROR, msg)])) \<and>
            map fst (entries s') = map fst (entries s) \<and>
            (\<forall>p. p \<noteq> log_file \<longrightarrow> lookup s' p = lookup s p) \<and>
            (\<forall>p. exists s' p = exists s p))"
proof (intro conjI allI impI)
  show "\<exists>s'. main s a s'"
  proof (cases "exists s (args_source_folder a)")
    case True
    with assms have "\<not> isdir s (args_source_folder a)" by simp
    with True have "main s a (logger ERROR (PathNotAFolder (args_source_folder a)) (main_start s a))"
      by (intro main.source_not_a_folder) (simp_all add: exists_main_start isdir_main_start)
    then show ?thesis by blast
  next
    case False
    then have "main s a (logger ERROR (SourceFolderMissing (args_source_folder a)) (main_start s a))"
      by (intro main.source_missing) (simp add: exists_main_start)
    then show ?thesis by blast
  qed
next
  fix s'
  assume "main s a s'"
  then have "s' = logger ERROR (SourceFolderMissing (args_source_folder a)) (main_start s a) \<or>
             s' = logger ERROR (PathNotAFolder (args_source_folder a)) (main_start s a)"
    using assms by cases (simp_all add: exists_main_start isdir_main_start)
  then obtain msg where
    msg: "msg = SourceFolderMissing (args_source_folder a) \<or>
          msg = PathNotAFolder (args_source_folder a)" and
    s': "s' = logger ERROR msg (main_start s a)"
    by blast
  let ?opening = "if args_verbose a \<or> level_no (threshold s) \<le> level_no INFO
                  then opening_records a else []"
  from main_start_state [of s a] have
    e: "entries (main_start s a) = entries_logged s ?opening" and
    f: "formats (main_start s a) = formats s" and
    l: "log_records (main_start s a) = log_records s @ ?opening"
    by blast+
  have "log_records s' = log_records s @ ?opening @ [(ERROR, msg)]"
    by (simp add: s' log_records_logger l level_no_ERROR)
  moreover have "entries s' = entries_logged s (?opening @ [(ERROR, msg)])"
    unfolding s' using entries_logged_logger [OF e f l, of ERROR msg]
    by (simp add: level_no_ERROR)
  ultimately show "\<exists>msg. (msg = SourceFolderMissing (args_source_folder a) \<or>
                    msg = PathNotAFolder (args_source_folder a)) \<and>
                   log_records s' = log_records s @ ?opening @ [(ERROR, msg)] \<and>
                   entries s' = entries_logged s (?opening @ [(ERROR, msg)])"
    using msg by blast
  show "map fst (entries s') = map fst (entries s)"
    by (simp add: s' paths_main_start)
  show "exists s' p = exists s p" for p
    by (simp add: s' exists_main_start)
  show "lookup s' p = lookup s p" if "p \<noteq> log_file" for p
    using that by (simp add: s' lookup_logger_other lookup_main_start)
qed

text \<open>
  The theorem at the example state, for the source folder \<^verbatim>\<open>nosuch\<close> and the output folder
  \<^verbatim>\<open>sorted\<close>, which does not exist either: afterwards there is still no \<^verbatim>\<open>sorted\<close>, the log
  has five records, and the file table has the same paths.
\<close>

theorem main_rejects_invalid_source_witness:
  "\<not> exists example_fs (args_source_folder example_args) \<and>
   \<not> exists example_fs (args_output_folder example_args) \<and>
   (\<exists>s'. main example_fs example_args s' \<and>
      map fst (entries s') = map fst (entries example_fs) \<and>
      \<not> exists s' (args_output_folder example_args) \<and>
      lookup s' [''src'', ''a.txt''] = Some (File [97, 10]) \<and>
      log_records s' =
        opening_records example_args @ [(ERROR, SourceFolderMissing [''nosuch''])])"
proof -
  have missing: "\<not> exists example_fs (args_source_folder example_args)"
    by code_simp
  have no_out: "\<not> exists example_fs (args_output_folder example_args)"
    by code_simp
  have src: "lookup example_fs [''src'', ''a.txt''] = Some (File [97, 10])"
    by code_simp
  have other: "[''src'', ''a.txt''] \<noteq> log_file"
    by (simp add: log_file_def)
  have th: "\<not> args_verbose example_args" "threshold example_fs = INFO" "log_records example_fs = []"
    "args_source_folder example_args = [''nosuch'']"
    by (simp_all add: example_args_def example_fs_def)
  from missing have h: "\<not> exists example_fs (args_source_folder example_args) \<or>
      \<not> isdir example_fs (args_source_folder example_args)" by simp
  from main_rejects_invalid_source [OF h] obtain s' where
    m: "main example_fs example_args s'" and
    e: "map fst (entries s') = map fst (entries example_fs)" and
    k: "\<forall>p. p \<noteq> log_file \<longrightarrow> lookup s' p = lookup example_fs p" and
    x: "\<forall>p. exists s' p = exists example_fs p"
    by blast
  from m missing have "s' = logger ERROR (SourceFolderMissing (args_source_folder example_args))
      (main_start example_fs example_args)"
    by cases (simp_all add: exists_main_start)
  then have "log_records s' = opening_records example_args @ [(ERROR, SourceFolderMissing [''nosuch''])]"
    using th main_start_state [of example_fs example_args]
    by (simp add: log_records_logger level_no_ERROR)
  moreover from x no_out have "\<not> exists s' (args_output_folder example_args)" by simp
  moreover from k other src have "lookup s' [''src'', ''a.txt''] = Some (File [97, 10])" by simp
  ultimately show ?thesis using m e missing no_out by blast
qed

end
